theory Spec2Isabelle
  imports Main "HOL-Library.Multiset"
begin

section \<open>Results, array reads\<close>

text \<open>
  The graph classes of \<open>Galois/Graph/LCGraph.h\<close> keep their topology in
  \<open>LargeArray\<close>s and read them with \<open>operator[]\<close>, which does not check its index:
  a read past the end is undefined behaviour in the source. In the model such a read is the
  error \<open>OutOfRange\<close>. A failed claim of a lockable is the error \<open>Conflict\<close>,
  \<open>GALOIS_ERROR(true, msg)\<close> is the error \<open>Fatal msg\<close>, an \<open>assert\<close> that does
  not hold is \<open>AssertFailed\<close>, the use of a destroyed record is \<open>Dangling\<close>, and a
  lock that a call run on its own would wait for without end is \<open>Blocked\<close>.

  Indices are \<open>uint32_t\<close> (nodes) and \<open>uint64_t\<close> (edges) in the source and natural
  numbers here; where a width decides a result (the sentinel of \<open>getEdgeIdx\<close>) the
  bound is written out.
\<close>

datatype error = OutOfRange | Conflict | Fatal string | AssertFailed | Dangling | Blocked

fun then_do :: "error + 'a \<Rightarrow> ('a \<Rightarrow> error + 'b) \<Rightarrow> error + 'b" where
  "then_do (Inl e) f = Inl e"
| "then_do (Inr x) f = f x"

definition at :: "'a list \<Rightarrow> nat \<Rightarrow> error + 'a" where
  "at xs i = (if i < length xs then Inr (xs ! i) else Inl OutOfRange)"

text \<open>Running a fallible step over a sequence, left to right, stopping at the first error.\<close>

fun for_each :: "('a \<Rightarrow> 's \<Rightarrow> error + 's) \<Rightarrow> 'a list \<Rightarrow> 's \<Rightarrow> error + 's" where
  "for_each f [] s = Inr s"
| "for_each f (x # xs) s = then_do (f x s) (for_each f xs)"

fun collect :: "('a \<Rightarrow> error + 'b) \<Rightarrow> 'a list \<Rightarrow> error + 'b list" where
  "collect f [] = Inr []"
| "collect f (x # xs) =
     then_do (f x) (\<lambda>y. then_do (collect f xs) (\<lambda>ys. Inr (y # ys)))"


section \<open>The structural graph\<close>

text \<open>
  Modelled from the spec: \<open>FileGraph\<close> (\<open>Galois/Graph/FileGraph.h\<close>) is not part of
  the sources at hand. The spec describes it as a read-only structural graph exposing node
  count, edge count, a finite node-identity sequence, per-node neighbour-range iteration and
  edge-payload accessors keyed by iterator position. It is modelled as the sequence, in node
  order, of each node's neighbour sequence, every neighbour with the payload of its edge.
  The three flat sequences that \<open>LC_CSR_Graph::structureFromGraph\<close> copies are the
  compressed-row view of the same graph, as the spec's Flat-CSR layout names them:
  \<open>edge_id\<close> is the edge offset per node (the running end of each node's edges),
  \<open>node_id\<close> the edge destination per edge, \<open>edge_data\<close> the payload per edge.
\<close>

type_synonym 'e FileGraph = "(nat \<times> 'e) list list"

definition fg_size :: "'e FileGraph \<Rightarrow> nat" where
  "fg_size graph = length graph"

definition fg_sizeEdges :: "'e FileGraph \<Rightarrow> nat" where
  "fg_sizeEdges graph = length (concat graph)"

definition fg_nodes :: "'e FileGraph \<Rightarrow> nat list" where
  "fg_nodes graph = [0..<length graph]"

definition neighbors :: "'e FileGraph \<Rightarrow> nat \<Rightarrow> nat list" where
  "neighbors graph n = map fst (graph ! n)"

definition neighbor_data :: "'e FileGraph \<Rightarrow> nat \<Rightarrow> 'e list" where
  "neighbor_data graph n = map snd (graph ! n)"

fun offsets :: "nat \<Rightarrow> 'a list list \<Rightarrow> nat list" where
  "offsets acc [] = []"
| "offsets acc (xs # xss) = (acc + length xs) # offsets (acc + length xs) xss"

definition edge_id :: "'e FileGraph \<Rightarrow> nat list" where
  "edge_id graph = offsets 0 graph"

definition node_id :: "'e FileGraph \<Rightarrow> nat list" where
  "node_id graph = map fst (concat graph)"

definition edge_data :: "'e FileGraph \<Rightarrow> 'e list" where
  "edge_data graph = map snd (concat graph)"


section \<open>Conflict policies and claims\<close>

text \<open>
  Modelled from the spec: \<open>MethodFlag\<close>, \<open>Runtime::acquire\<close>,
  \<open>Runtime::shouldLock\<close> and \<open>Runtime::checkWrite\<close>
  (\<open>Galois/Runtime/MethodFlags.h\<close>) are not part of the sources at hand. The spec's
  conflict-policy enumeration is \<open>none\<close> (no record acquired), \<open>checkRace\<close>
  (acquire only the target node's record), \<open>checkRaceAndNeighbors\<close> (acquire the target
  node's record and, during edge-range retrieval, every adjacent node's record) and
  \<open>writeIntent\<close>, which additionally marks the access as a write for a write-auditing
  layer and is kept as a separate mark beside the locking policy.

  A lockable carries an owner slot. Claiming it for a context succeeds when the slot is
  empty, is a no-op when the context already holds it, and fails otherwise; the failure is
  handed to the scheduler, which is the error \<open>Conflict\<close> here.
\<close>

datatype ConflictPolicy = none | checkRace | checkRaceAndNeighbors

record MethodFlag =
  policy :: ConflictPolicy
  writeIntent :: bool

type_synonym Lockable = nat
type_synonym owners = "Lockable \<rightharpoonup> nat"

definition shouldLock :: "MethodFlag \<Rightarrow> bool" where
  "shouldLock mflag = (policy mflag = checkRaceAndNeighbors)"

definition doAcquire :: "nat \<Rightarrow> Lockable \<Rightarrow> owners \<Rightarrow> error + owners" where
  "doAcquire ctx l own =
     (case own l of
        None \<Rightarrow> Inr (own(l \<mapsto> ctx))
      | Some c \<Rightarrow> if c = ctx then Inr own else Inl Conflict)"

definition acquire :: "nat \<Rightarrow> Lockable \<Rightarrow> MethodFlag \<Rightarrow> owners \<Rightarrow> error + owners" where
  "acquire ctx l mflag own = (if policy mflag = none then Inr own else doAcquire ctx l own)"


section \<open>The flat compressed-row graph\<close>

text \<open>
  \<open>LC_CSR_Graph\<close>: the node payloads, the edge offset of every node, and the destination
  and payload of every edge. The lockable of node \<open>N\<close> is \<open>nodeData[N]\<close>; its address
  is identified with \<open>N\<close>.
\<close>

record ('n, 'e) LC_CSR_Graph =
  nodeData :: "'n list"
  edgeIndData :: "nat list"
  edgeDst :: "nat list"
  edgeData :: "'e list"
  numNodes :: nat
  numEdges :: nat

definition raw_neighbor_begin :: "('n, 'e) LC_CSR_Graph \<Rightarrow> nat \<Rightarrow> error + nat" where
  "raw_neighbor_begin G N = (if N = 0 then Inr 0 else at (edgeIndData G) (N - 1))"

definition raw_neighbor_end :: "('n, 'e) LC_CSR_Graph \<Rightarrow> nat \<Rightarrow> error + nat" where
  "raw_neighbor_end G N = at (edgeIndData G) N"

definition getEdgeDst :: "('n, 'e) LC_CSR_Graph \<Rightarrow> nat \<Rightarrow> error + nat" where
  "getEdgeDst G ni = at (edgeDst G) ni"

definition getEdgeData :: "('n, 'e) LC_CSR_Graph \<Rightarrow> nat \<Rightarrow> MethodFlag \<Rightarrow> error + 'e" where
  "getEdgeData G ni mflag = at (edgeData G) ni"

definition size :: "('n, 'e) LC_CSR_Graph \<Rightarrow> nat" where
  "size G = numNodes G"

definition sizeEdges :: "('n, 'e) LC_CSR_Graph \<Rightarrow> nat" where
  "sizeEdges G = numEdges G"

text \<open>
  \<open>acquire(&nodeData[N], mflag)\<close>: the address is taken of an element that must exist.
\<close>

definition acquire_node ::
  "('n, 'e) LC_CSR_Graph \<Rightarrow> nat \<Rightarrow> nat \<Rightarrow> MethodFlag \<Rightarrow> owners \<Rightarrow> error + owners" where
  "acquire_node G ctx N mflag own =
     (if N < length (nodeData G) then acquire ctx N mflag own else Inl OutOfRange)"

definition getData ::
  "('n, 'e) LC_CSR_Graph \<Rightarrow> nat \<Rightarrow> nat \<Rightarrow> MethodFlag \<Rightarrow> owners \<Rightarrow> error + ('n \<times> owners)" where
  "getData G ctx N mflag own =
     then_do (at (nodeData G) N) (\<lambda>NI.
     then_do (acquire ctx N mflag own) (\<lambda>own'. Inr (NI, own')))"

text \<open>
  The loop \<open>for (ii = b; ii != ee; ++ii)\<close> over edge positions. Its body reads
  \<open>edgeDst[ii]\<close>, so a position outside the array ends it with \<open>OutOfRange\<close>; this
  also covers \<open>b > ee\<close>, where the source would run off the end of the array.
\<close>

function acquire_neighbors ::
  "('n, 'e) LC_CSR_Graph \<Rightarrow> nat \<Rightarrow> MethodFlag \<Rightarrow> nat \<Rightarrow> nat \<Rightarrow> owners \<Rightarrow> error + owners" where
  "acquire_neighbors G ctx mflag ii ee own =
     (if ii = ee then Inr own
      else if length (edgeDst G) \<le> ii then Inl OutOfRange
      else then_do (acquire_node G ctx (edgeDst G ! ii) mflag own)
             (acquire_neighbors G ctx mflag (Suc ii) ee))"
  by pat_completeness auto
termination
  by (relation "measure (\<lambda>(G, ctx, mflag, ii, ee, own). length (edgeDst G) - ii)") auto

declare acquire_neighbors.simps [simp del]

definition edge_begin ::
  "('n, 'e) LC_CSR_Graph \<Rightarrow> nat \<Rightarrow> nat \<Rightarrow> MethodFlag \<Rightarrow> owners \<Rightarrow> error + (nat \<times> owners)" where
  "edge_begin G ctx N mflag own =
     then_do (acquire_node G ctx N mflag own) (\<lambda>own1.
     then_do (if shouldLock mflag
              then then_do (raw_neighbor_begin G N) (\<lambda>b.
                   then_do (raw_neighbor_end G N) (\<lambda>e.
                     acquire_neighbors G ctx mflag b e own1))
              else Inr own1) (\<lambda>own2.
     then_do (raw_neighbor_begin G N) (\<lambda>b. Inr (b, own2))))"

definition edge_end ::
  "('n, 'e) LC_CSR_Graph \<Rightarrow> nat \<Rightarrow> nat \<Rightarrow> MethodFlag \<Rightarrow> owners \<Rightarrow> error + (nat \<times> owners)" where
  "edge_end G ctx N mflag own =
     then_do (acquire_node G ctx N mflag own) (\<lambda>own1.
     then_do (raw_neighbor_end G N) (\<lambda>e. Inr (e, own1)))"

text \<open>
  \<open>getEdgeIdx\<close>: the position of the first edge of \<open>src\<close> to \<open>dst\<close>, or
  \<open>~static_cast<uint64_t>(0)\<close>.
\<close>

definition npos :: nat where
  "npos = 2 ^ 64 - 1"

function getEdgeIdx_loop :: "('n, 'e) LC_CSR_Graph \<Rightarrow> nat \<Rightarrow> nat \<Rightarrow> nat \<Rightarrow> error + nat" where
  "getEdgeIdx_loop G dst ii ee =
     (if ii = ee then Inr npos
      else if length (edgeDst G) \<le> ii then Inl OutOfRange
      else if edgeDst G ! ii = dst then Inr ii
      else getEdgeIdx_loop G dst (Suc ii) ee)"
  by pat_completeness auto
termination
  by (relation "measure (\<lambda>(G, dst, ii, ee). length (edgeDst G) - ii)") auto

declare getEdgeIdx_loop.simps [simp del]

definition getEdgeIdx :: "('n, 'e) LC_CSR_Graph \<Rightarrow> nat \<Rightarrow> nat \<Rightarrow> error + nat" where
  "getEdgeIdx G src dst =
     then_do (raw_neighbor_begin G src) (\<lambda>b.
     then_do (raw_neighbor_end G src) (\<lambda>e. getEdgeIdx_loop G dst b e))"

definition hasNeighbor ::
  "('n, 'e) LC_CSR_Graph \<Rightarrow> nat \<Rightarrow> nat \<Rightarrow> nat \<Rightarrow> MethodFlag \<Rightarrow> owners \<Rightarrow> error + (bool \<times> owners)" where
  "hasNeighbor G ctx src dst mflag own =
     then_do (getEdgeIdx G src dst) (\<lambda>i. Inr (i \<noteq> npos, own))"

text \<open>
  \<open>structureFromGraph\<close>: the arrays are allocated with the structural graph's counts and
  filled by three copies. Node payloads are not copied; \<open>d\<close> is the value a fresh node
  payload has. An edge type without a value (\<open>void\<close>) is the unit type, for which the
  guarded copy of the payloads makes no difference.
\<close>

definition structureFromGraph :: "'n \<Rightarrow> 'e FileGraph \<Rightarrow> ('n, 'e) LC_CSR_Graph" where
  "structureFromGraph d graph =
     \<lparr> nodeData = replicate (fg_size graph) d,
       edgeIndData = edge_id graph,
       edgeDst = node_id graph,
       edgeData = edge_data graph,
       numNodes = fg_size graph,
       numEdges = fg_sizeEdges graph \<rparr>"

text \<open>
  The edges of a node as a client reads them (\<open>EdgesIterator\<close>, and the loop of the
  class comment): the positions from \<open>edge_begin(N)\<close> up to \<open>edge_end(N)\<close>, walked
  with \<open>++\<close> until the end is met. A begin beyond the end never meets it inside the array.
\<close>

definition edge_range :: "nat \<Rightarrow> nat \<Rightarrow> error + nat list" where
  "edge_range b e = (if b \<le> e then Inr [b..<e] else Inl OutOfRange)"

definition out_edges ::
  "('n, 'e) LC_CSR_Graph \<Rightarrow> nat \<Rightarrow> nat \<Rightarrow> MethodFlag \<Rightarrow> owners \<Rightarrow> error + (nat list \<times> owners)" where
  "out_edges G ctx N mflag own =
     then_do (edge_begin G ctx N mflag own) (\<lambda>(b, own1).
     then_do (edge_end G ctx N mflag own1) (\<lambda>(e, own2).
     then_do (edge_range b e) (\<lambda>es. Inr (es, own2))))"


text \<open>
  Reading the destination and the payload of an edge position together.
\<close>

definition edge_pair :: "('n, 'e) LC_CSR_Graph \<Rightarrow> nat \<Rightarrow> error + (nat \<times> 'e)" where
  "edge_pair G ni =
     then_do (getEdgeDst G ni) (\<lambda>dst.
     then_do (getEdgeData G ni \<lparr>policy = none, writeIntent = False\<rparr>) (\<lambda>w. Inr (dst, w)))"

text \<open>
  \<open>std::sort\<close> belongs to the C++ standard library: it orders the range by the given
  comparator and leaves the relative order of equivalent elements open. The model is
  insertion sort by the comparator.
\<close>

fun insert_by :: "('a \<Rightarrow> 'a \<Rightarrow> bool) \<Rightarrow> 'a \<Rightarrow> 'a list \<Rightarrow> 'a list" where
  "insert_by cmp x [] = [x]"
| "insert_by cmp x (y # ys) = (if cmp y x then y # insert_by cmp x ys else x # y # ys)"

definition std_sort :: "('a \<Rightarrow> 'a \<Rightarrow> bool) \<Rightarrow> 'a list \<Rightarrow> 'a list" where
  "std_sort cmp xs = foldr (insert_by cmp) xs []"

text \<open>
  Modelled from the spec: \<open>EdgeSortIterator\<close>, \<open>EdgeSortValue\<close> and
  \<open>EdgeSortCompWrapper\<close> (\<open>Galois/Graph/Util.h\<close>) are not part of the sources at
  hand. By the spec, sorting reorders one node's outgoing edges in place, the payload kept
  paired with the destination, after acquiring the node's record: the iterator from
  \<open>edge_sort_begin(N)\<close> to \<open>edge_sort_end(N)\<close> ranges over the (destination, payload)
  pairs at the positions of \<open>N\<close>'s edges in \<open>edgeDst\<close> and \<open>edgeData\<close>, and the
  wrapper compares two pairs by applying the comparator to their payloads.
\<close>

definition EdgeSortCompWrapper :: "('e \<Rightarrow> 'e \<Rightarrow> bool) \<Rightarrow> nat \<times> 'e \<Rightarrow> nat \<times> 'e \<Rightarrow> bool" where
  "EdgeSortCompWrapper cmp x y = cmp (snd x) (snd y)"

definition sort_range ::
  "(nat \<times> 'e \<Rightarrow> nat \<times> 'e \<Rightarrow> bool) \<Rightarrow> nat \<Rightarrow> nat \<Rightarrow> ('n, 'e) LC_CSR_Graph
   \<Rightarrow> error + ('n, 'e) LC_CSR_Graph" where
  "sort_range cmp b e G =
     (if b \<le> e \<and> e \<le> length (edgeDst G) \<and> e \<le> length (edgeData G)
      then let sorted = std_sort cmp
                 (zip (drop b (take e (edgeDst G))) (drop b (take e (edgeData G))))
           in Inr (G\<lparr> edgeDst := take b (edgeDst G) @ map fst sorted @ drop e (edgeDst G),
                     edgeData := take b (edgeData G) @ map snd sorted @ drop e (edgeData G) \<rparr>)
      else Inl OutOfRange)"

definition sortEdgesByEdgeData ::
  "('n, 'e) LC_CSR_Graph \<Rightarrow> nat \<Rightarrow> nat \<Rightarrow> ('e \<Rightarrow> 'e \<Rightarrow> bool) \<Rightarrow> MethodFlag \<Rightarrow> owners
   \<Rightarrow> error + (('n, 'e) LC_CSR_Graph \<times> owners)" where
  "sortEdgesByEdgeData G ctx N cmp mflag own =
     then_do (acquire_node G ctx N mflag own) (\<lambda>own1.
     then_do (raw_neighbor_begin G N) (\<lambda>b.
     then_do (raw_neighbor_end G N) (\<lambda>e.
     then_do (sort_range (EdgeSortCompWrapper cmp) b e G) (\<lambda>G'. Inr (G', own1)))))"

definition sortEdges ::
  "('n, 'e) LC_CSR_Graph \<Rightarrow> nat \<Rightarrow> nat \<Rightarrow> (nat \<times> 'e \<Rightarrow> nat \<times> 'e \<Rightarrow> bool) \<Rightarrow> MethodFlag
   \<Rightarrow> owners \<Rightarrow> error + (('n, 'e) LC_CSR_Graph \<times> owners)" where
  "sortEdges G ctx N cmp mflag own =
     then_do (acquire_node G ctx N mflag own) (\<lambda>own1.
     then_do (raw_neighbor_begin G N) (\<lambda>b.
     then_do (raw_neighbor_end G N) (\<lambda>e.
     then_do (sort_range cmp b e G) (\<lambda>G'. Inr (G', own1)))))"

text \<open>
  The spec's concrete scenario: four nodes and the edges \<open>0\<rightarrow>1\<close> (payload 5),
  \<open>0\<rightarrow>2\<close> (1), \<open>1\<rightarrow>2\<close> (3), \<open>2\<rightarrow>3\<close> (2).
\<close>

definition scenario_graph :: "int FileGraph" where
  "scenario_graph = [[(1, 5), (2, 1)], [(2, 3)], [(3, 2)], []]"


definition sorted_scenario :: "'n \<Rightarrow> ('n, int) LC_CSR_Graph" where
  "sorted_scenario d =
     \<lparr> nodeData = [d, d, d, d], edgeIndData = [2, 3, 4, 4], edgeDst = [2, 1, 2, 3],
       edgeData = [1, 5, 3, 2], numNodes = 4, numEdges = 4 \<rparr>"

text \<open>
  The records a policy asks for, in the spec's words: none under \<open>none\<close>, the target
  node's under \<open>checkRace\<close>, the target node's and every adjacent node's under
  \<open>checkRaceAndNeighbors\<close>; and the owner slots after a context has claimed a set of
  records.
\<close>

definition policy_records :: "ConflictPolicy \<Rightarrow> Lockable \<Rightarrow> Lockable list \<Rightarrow> Lockable set" where
  "policy_records p n adj =
     (case p of none \<Rightarrow> {} | checkRace \<Rightarrow> {n} | checkRaceAndNeighbors \<Rightarrow> insert n (set adj))"

definition claim_all :: "nat \<Rightarrow> Lockable set \<Rightarrow> owners \<Rightarrow> owners" where
  "claim_all ctx S own = (\<lambda>l. if l \<in> S then Some ctx else own l)"


section \<open>The graph with in-edges\<close>

text \<open>
  \<open>InOutGraphImpl::InEdges\<close> keeps the in-edge arrays either in stores of its own or, for
  a symmetric graph, as pointers to the out-edge arrays of the graph; \<open>shared\<close> tells
  which.
\<close>

record 'e InEdges =
  edgeIndDataStore :: "nat list"
  edgeDstStore :: "nat list"
  edgeDataStore :: "'e list"
  shared :: bool

record ('n, 'e) LC_CSR_InOutGraph =
  super :: "('n, 'e) LC_CSR_Graph"
  inEdges :: "'e InEdges"

text \<open>
  Modelled from the spec: the macro \<open>GALOIS_ERROR\<close> is not part of the sources at hand.
  By the spec a structural mismatch is fatal at construction time and aborts the load with a
  descriptive error: with a true first argument the macro ends the run with the message, and
  what follows it is not executed.
\<close>

definition GALOIS_ERROR :: "bool \<Rightarrow> string \<Rightarrow> (error + 'a) \<Rightarrow> error + 'a" where
  "GALOIS_ERROR doabort msg continue = (if doabort then Inl (Fatal msg) else continue)"

definition initialize_transpose :: "'e FileGraph \<Rightarrow> 'e InEdges" where
  "initialize_transpose tgraph =
     \<lparr> edgeIndDataStore = edge_id tgraph,
       edgeDstStore = node_id tgraph,
       edgeDataStore = edge_data tgraph,
       shared = False \<rparr>"

definition initialize_symmetric :: "bool \<Rightarrow> error + 'e InEdges" where
  "initialize_symmetric symmetric =
     (if symmetric
      then Inr \<lparr> edgeIndDataStore = [], edgeDstStore = [], edgeDataStore = [], shared = True \<rparr>
      else Inl (Fatal ''abort''))"

definition structureFromGraph_transpose ::
  "'n \<Rightarrow> 'e FileGraph \<Rightarrow> 'e FileGraph \<Rightarrow> error + ('n, 'e) LC_CSR_InOutGraph" where
  "structureFromGraph_transpose d graph tgraph =
     (let build = Inr \<lparr> super = structureFromGraph d graph,
                          inEdges = initialize_transpose tgraph \<rparr>
      in if fg_size graph \<noteq> fg_size tgraph
         then GALOIS_ERROR True ''number of nodes in graph and its transpose do not match'' build
         else if fg_sizeEdges graph \<noteq> fg_sizeEdges tgraph
         then GALOIS_ERROR True ''number of edges in graph and its transpose do not match'' build
         else build)"

definition structureFromGraph_symmetric ::
  "'n \<Rightarrow> 'e FileGraph \<Rightarrow> bool \<Rightarrow> error + ('n, 'e) LC_CSR_InOutGraph" where
  "structureFromGraph_symmetric d graph symmetric =
     then_do (initialize_symmetric symmetric) (\<lambda>ie.
       Inr \<lparr> super = structureFromGraph d graph, inEdges = ie \<rparr>)"

text \<open>The transpose of the scenario graph, and a structural graph with one node less.\<close>

definition scenario_transpose :: "int FileGraph" where
  "scenario_transpose = [[], [(0, 5)], [(0, 1), (1, 3)], [(2, 2)]]"

definition short_transpose :: "int FileGraph" where
  "short_transpose = [[], [(0, 5)], [(0, 1), (1, 3)]]"


section \<open>The inline compressed-row graph\<close>
















section \<open>The linear-packed graph and the graph of per-thread arenas\<close>

text \<open>
  \<open>LC_Linear_Graph\<close> and \<open>LC_Numa_Graph\<close> declare the same \<open>NodeInfo\<close> and run the
  same two loops over it: a node record is followed in memory by its edge records, and the
  next node record begins at the first multiple of the node record's size past them. The
  records live in blocks of bytes (the \<open>LargeArray<char>\<close> of the linear graph, one
  \<open>largeAlloc\<close> block per thread in the other). A pointer is a block and a byte offset in
  it; the sizes \<open>sizeof(NodeInfo)\<close>, \<open>sizeof(EdgeInfo)\<close> and \<open>sizeof(Header)\<close> are
  parameters. The memory holds the objects by the address of their first byte. Writing an
  object needs all of its bytes inside the block, and ends every object that it overlaps:
  reading such an object afterwards, or an address where nothing was written, has no result.
\<close>

type_synonym pointer = "nat \<times> int"

record Sizes =
  sizeofNodeInfo :: nat
  sizeofEdgeInfo :: nat
  sizeofHeader :: nat

datatype ('n, 'e) object = NodeInfo 'n int | EdgeInfo pointer 'e

record ('n, 'e) memory =
  extent :: "nat \<Rightarrow> nat option"
  objects :: "pointer \<Rightarrow> ('n, 'e) object option"
  allocated :: nat




definition sizeof :: "Sizes \<Rightarrow> ('n, 'e) object \<Rightarrow> int" where
  "sizeof sz ob = (case ob of NodeInfo x k \<Rightarrow> int (sizeofNodeInfo sz)
                            | EdgeInfo p w \<Rightarrow> int (sizeofEdgeInfo sz))"





text \<open>
  \<open>int numEdges\<close>: the count of a node's neighbours, which \<open>std::distance\<close> gives in
  64 bits, is converted to \<open>int\<close>. With an \<open>int\<close> of 32 bits the conversion keeps the
  low 32 bits of the count, read in two's complement.
\<close>

definition to_int :: "nat \<Rightarrow> int" where
  "to_int n = (let m = int n mod 2 ^ 32 in if m < 2 ^ 31 then m else m - 2 ^ 32)"



function next_loop :: "int \<Rightarrow> int \<Rightarrow> int \<Rightarrow> int" where
  "next_loop step ni ei = (if ni < ei \<and> 0 < step then next_loop step (ni + step) ei else ni)"
  by pat_completeness auto

termination
  by (relation "measure (\<lambda>(step, ni, ei). nat (ei - ni))") auto

declare next_loop.simps [simp del]












text \<open>
  The addresses that the first loop gives to the nodes \<open>ns\<close> when it starts at the offset
  \<open>c\<close>, the offset at which it ends, and the bytes that it may use.
\<close>

definition span_end :: "Sizes \<Rightarrow> 'e FileGraph \<Rightarrow> nat \<Rightarrow> int \<Rightarrow> int" where
  "span_end sz g i a =
     a + int (sizeofNodeInfo sz) + int (length (g ! i)) * int (sizeofEdgeInfo sz)"

fun node_offsets :: "Sizes \<Rightarrow> 'e FileGraph \<Rightarrow> int \<Rightarrow> nat list \<Rightarrow> int list" where
  "node_offsets sz g c [] = []"
| "node_offsets sz g c (i # ns) =
     c # node_offsets sz g (next_loop (int (sizeofNodeInfo sz)) c (span_end sz g i c)) ns"



text \<open>
  What the first loop leaves when it has run over the nodes \<open>ns\<close> in the block \<open>t\<close>
  from the offset \<open>c\<close>: the node records at the offsets above, their addresses in
  \<open>nodes\<close>, and everything in other blocks or below \<open>c\<close> as it was.
\<close>

definition nodes_laid ::
  "Sizes \<Rightarrow> 'n \<Rightarrow> 'e FileGraph \<Rightarrow> nat \<Rightarrow> int \<Rightarrow> nat list
   \<Rightarrow> ('n, 'e) memory \<Rightarrow> pointer option list \<Rightarrow> ('n, 'e) memory \<Rightarrow> pointer option list
   \<Rightarrow> bool" where
  "nodes_laid sz d g t c ns M nodes M' nodes' \<longleftrightarrow>
     extent M' = extent M \<and> allocated M' = allocated M \<and> length nodes' = length nodes
     \<and> (\<forall>k < length ns. nodes' ! (ns ! k) = Some (t, node_offsets sz g c ns ! k))
     \<and> (\<forall>j. j \<notin> set ns \<longrightarrow> nodes' ! j = nodes ! j)
     \<and> (\<forall>k < length ns. objects M' (t, node_offsets sz g c ns ! k)
                            = Some (NodeInfo d (int (length (g ! (ns ! k))))))
     \<and> (\<forall>q ob. objects M q = Some ob \<longrightarrow> fst q \<noteq> t \<or> snd q + sizeof sz ob \<le> c
               \<longrightarrow> objects M' q = Some ob)"





section \<open>The graph of per-thread arenas\<close>

















section \<open>The four layouts side by side\<close>








section \<open>Descriptions of the layouts\<close>


abbreviation edges_before :: "'a list list \<Rightarrow> nat \<Rightarrow> nat" where
  "edges_before g k \<equiv> length (concat (take k g))"












section \<open>Ownership records and the neighbourhood managers\<close>

text \<open>
  \<open>Galois/Runtime/OrderedLockable.h\<close>. A record (\<open>NItem\<close>, derived from
  \<open>OrdLocBase\<close>) is known by its address and has the field \<open>lockable\<close>. The state
  has the owner slot of every lockable, the records that are constructed (\<open>items\<close>, with
  their \<open>lockable\<close> field), the storage of the manager's allocator \<open>niAlloc\<close> and the
  manager's collection \<open>allNItems\<close>.

  Modelled from the spec: \<open>FixedSizeAllocator\<close> and \<open>PerThreadBag\<close> are not part of the
  sources at hand. The allocator is a fixed-size object pool: storage given back is handed
  out again (\<open>free_list\<close>), before storage never used (\<open>fresh\<close>). The collection
  produces every record created since the last reset, in no specified order; it is kept as
  one sequence.
\<close>

type_synonym NItem = nat

record nhood =
  owner :: "Lockable \<rightharpoonup> NItem"
  items :: "NItem \<rightharpoonup> Lockable"
  free_list :: "NItem list"
  fresh :: NItem
  allNItems :: "NItem list"

definition allocate :: "'a nhood_scheme \<Rightarrow> NItem \<times> 'a nhood_scheme" where
  "allocate s =
     (case free_list s of
        a # fs \<Rightarrow> (a, s\<lparr>free_list := fs\<rparr>)
      | [] \<Rightarrow> (fresh s, s\<lparr>fresh := Suc (fresh s)\<rparr>))"

definition deallocate :: "NItem \<Rightarrow> 'a nhood_scheme \<Rightarrow> 'a nhood_scheme" where
  "deallocate ni s = s\<lparr>free_list := ni # free_list s\<rparr>"

text \<open>
  Modelled from the spec: \<open>LockManagerBase\<close> and \<open>Lockable\<close>
  (\<open>Galois/Runtime/Context.h\<close>) are not part of the sources at hand. By the spec the
  claim is one compare-and-swap that takes the owner slot from unowned to the caller and
  succeeds exactly when nobody owns it; releasing requires that the caller holds the claim
  and clears the slot; the lookup of the current owner does not block. \<open>tryLock\<close>, which
  \<open>clearMapping\<close> calls because ``release requires having owned the lock'', takes the
  slot for the caller when it is free and succeeds as well when the caller holds it already.
\<close>

definition getOwner :: "'a nhood_scheme \<Rightarrow> Lockable \<Rightarrow> NItem option" where
  "getOwner s l = owner s l"

definition CASowner ::
  "NItem \<Rightarrow> Lockable \<Rightarrow> NItem option \<Rightarrow> 'a nhood_scheme \<Rightarrow> bool \<times> 'a nhood_scheme" where
  "CASowner this l other s =
     (if owner s l = other then (True, s\<lparr>owner := (owner s)(l \<mapsto> this)\<rparr>) else (False, s))"

definition tryLock :: "NItem \<Rightarrow> Lockable \<Rightarrow> 'a nhood_scheme \<Rightarrow> bool \<times> 'a nhood_scheme" where
  "tryLock this l s =
     (case owner s l of
        None \<Rightarrow> (True, s\<lparr>owner := (owner s)(l \<mapsto> this)\<rparr>)
      | Some other \<Rightarrow> (other = this, s))"

definition release :: "NItem \<Rightarrow> Lockable \<Rightarrow> 'a nhood_scheme \<Rightarrow> error + 'a nhood_scheme" where
  "release this l s =
     (if owner s l = Some this then Inr (s\<lparr>owner := (owner s)(l := None)\<rparr>)
      else Inl AssertFailed)"

text \<open>\<open>OrdLocFactoryBase::construct\<close>, and the destructor call of \<open>niAlloc.destroy\<close>.\<close>

definition construct :: "NItem \<Rightarrow> Lockable \<Rightarrow> 'a nhood_scheme \<Rightarrow> 'a nhood_scheme" where
  "construct ni l s = s\<lparr>items := (items s)(ni \<mapsto> l)\<rparr>"

definition destruct :: "NItem \<Rightarrow> 'a nhood_scheme \<Rightarrow> 'a nhood_scheme" where
  "destruct ni s = s\<lparr>items := (items s)(ni := None)\<rparr>"

text \<open>\<open>OrdLocBase\<close>.\<close>

definition tryMappingTo :: "NItem \<Rightarrow> Lockable \<Rightarrow> 'a nhood_scheme \<Rightarrow> bool \<times> 'a nhood_scheme" where
  "tryMappingTo ni l s = CASowner ni l None s"

definition clearMapping :: "NItem \<Rightarrow> 'a nhood_scheme \<Rightarrow> error + 'a nhood_scheme" where
  "clearMapping ni s =
     (case items s ni of
        None \<Rightarrow> Inl Dangling
      | Some lockable \<Rightarrow>
          (case tryLock ni lockable s of
             (r, s') \<Rightarrow> if r then release ni lockable s' else Inl AssertFailed))"

text \<open>\<open>PtrBasedNhoodMgr\<close>.\<close>

definition create :: "Lockable \<Rightarrow> 'a nhood_scheme \<Rightarrow> NItem \<times> 'a nhood_scheme" where
  "create l s = (case allocate s of (ni, s') \<Rightarrow> (ni, construct ni l s'))"

definition destroy :: "NItem \<Rightarrow> 'a nhood_scheme \<Rightarrow> 'a nhood_scheme" where
  "destroy ni s = deallocate ni (destruct ni s)"

definition push_back :: "NItem \<Rightarrow> 'a nhood_scheme \<Rightarrow> 'a nhood_scheme" where
  "push_back ni s = s\<lparr>allNItems := allNItems s @ [ni]\<rparr>"

definition getNhoodItem :: "Lockable \<Rightarrow> 'a nhood_scheme \<Rightarrow> error + (NItem \<times> 'a nhood_scheme)" where
  "getNhoodItem l s =
     (let s1 = (if getOwner s l = None
                then (case create l s of
                        (ni, s') \<Rightarrow>
                          (case tryMappingTo ni l s' of
                             (won, s'') \<Rightarrow> if won then push_back ni s'' else destroy ni s''))
                else s)
      in case getOwner s1 l of
           None \<Rightarrow> Inl AssertFailed
         | Some ret \<Rightarrow> Inr (ret, s1))"

text \<open>
  \<open>resetAllNItems\<close> applies \<open>Reset\<close> to every record of the collection; the collection
  itself is left as it is.
\<close>

definition Reset :: "NItem \<Rightarrow> 'a nhood_scheme \<Rightarrow> error + 'a nhood_scheme" where
  "Reset ni s = then_do (clearMapping ni s) (\<lambda>s'. Inr (destroy ni s'))"

definition resetAllNItems :: "'a nhood_scheme \<Rightarrow> error + 'a nhood_scheme" where
  "resetAllNItems s = for_each Reset (allNItems s) s"

text \<open>
  \<open>getNhoodItem\<close> among other threads. Every access to the shared state is a step of
  its own, and a thread is at one of the following places of the function: before the
  first \<open>getOwner\<close>, before \<open>create\<close>, before \<open>tryMappingTo\<close> with its candidate,
  before \<open>push_back\<close> or before \<open>destroy\<close>, before the final \<open>getOwner\<close>. A step
  gives the next place, the new state and, when the call returns, the lockable and the
  record returned.
\<close>

datatype ptr_pc =
    Idle
  | AtCheck Lockable
  | AtCreate Lockable
  | AtTryMap Lockable NItem
  | AtPush Lockable NItem
  | AtDestroy Lockable NItem
  | AtReturn Lockable
  | Aborted

fun ptr_step ::
  "ptr_pc \<Rightarrow> 'a nhood_scheme \<Rightarrow> ptr_pc \<times> 'a nhood_scheme \<times> (Lockable \<times> NItem) option" where
  "ptr_step (AtCheck l) s = (if getOwner s l = None then AtCreate l else AtReturn l, s, None)"
| "ptr_step (AtCreate l) s = (case create l s of (ni, s') \<Rightarrow> (AtTryMap l ni, s', None))"
| "ptr_step (AtTryMap l ni) s =
     (case tryMappingTo ni l s of
        (won, s') \<Rightarrow> (if won then AtPush l ni else AtDestroy l ni, s', None))"
| "ptr_step (AtPush l ni) s = (AtReturn l, push_back ni s, None)"
| "ptr_step (AtDestroy l ni) s = (AtReturn l, destroy ni s, None)"
| "ptr_step (AtReturn l) s =
     (case getOwner s l of
        None \<Rightarrow> (Aborted, s, None)
      | Some ret \<Rightarrow> (Idle, s, Some (l, ret)))"
| "ptr_step Idle s = (Idle, s, None)"
| "ptr_step Aborted s = (Aborted, s, None)"

text \<open>
  A configuration has the shared state, the place of every thread and the calls that have
  returned so far. An event is the start of a call by an idle thread or one step of a
  thread; an event that cannot happen leaves the configuration as it is. A schedule, the
  sequence of the events, is one interleaving of the threads.
\<close>

record ('s, 'pc) config =
  shared :: 's
  pcs :: "nat \<Rightarrow> 'pc"
  returned :: "(Lockable \<times> NItem) list"

datatype event = Call nat Lockable | Step nat

fun ptr_exec ::
  "event \<Rightarrow> ('a nhood_scheme, ptr_pc) config \<Rightarrow> ('a nhood_scheme, ptr_pc) config" where
  "ptr_exec (Call t l) c = (if pcs c t = Idle then c\<lparr>pcs := (pcs c)(t := AtCheck l)\<rparr> else c)"
| "ptr_exec (Step t) c =
     (case ptr_step (pcs c t) (shared c) of
        (pc', s', r) \<Rightarrow>
          c\<lparr>shared := s', pcs := (pcs c)(t := pc'),
            returned := (case r of None \<Rightarrow> returned c | Some x \<Rightarrow> returned c @ [x])\<rparr>)"

definition ptr_run ::
  "event list \<Rightarrow> ('a nhood_scheme, ptr_pc) config \<Rightarrow> ('a nhood_scheme, ptr_pc) config" where
  "ptr_run sched c = foldl (\<lambda>c e. ptr_exec e c) c sched"

text \<open>A manager that has created nothing, over lockables that nobody owns.\<close>

definition empty_nhood :: nhood where
  "empty_nhood =
     \<lparr> owner = Map.empty, items = Map.empty, free_list = [], fresh = 0, allNItems = [] \<rparr>"

definition ptr_init :: "(nhood, ptr_pc) config" where
  "ptr_init = \<lparr> shared = empty_nhood, pcs = (\<lambda>t. Idle), returned = [] \<rparr>"

text \<open>
  The race of claim C2: the records \<open>cs\<close> attempt \<open>tryMappingTo\<close> on one lockable, in
  the order in which their compare-and-swaps take effect.
\<close>

fun race :: "NItem list \<Rightarrow> Lockable \<Rightarrow> 'a nhood_scheme \<Rightarrow> bool list \<times> 'a nhood_scheme" where
  "race [] l s = ([], s)"
| "race (ni # cs) l s =
     (case tryMappingTo ni l s of
        (won, s') \<Rightarrow> (case race cs l s' of (rs, s'') \<Rightarrow> (won # rs, s'')))"


text \<open>
  What holds of the shared state between the steps of the threads: the allocator hands
  out storage that holds no record; a record that owns a lockable is constructed and has
  that lockable in its field; every collected record owns a lockable; the candidate of a
  thread is constructed, two threads never have the same candidate, and a thread that is
  past its compare-and-swap finds the lockable owned; a call that has returned has returned
  the owner of its lockable.
\<close>

definition alloc_ok :: "'a nhood_scheme \<Rightarrow> bool" where
  "alloc_ok s \<longleftrightarrow>
     distinct (free_list s)
     \<and> (\<forall>a \<in> set (free_list s). a < fresh s \<and> items s a = None)
     \<and> (\<forall>a l. items s a = Some l \<longrightarrow> a < fresh s)"

definition bound_ok :: "'a nhood_scheme \<Rightarrow> bool" where
  "bound_ok s \<longleftrightarrow> (\<forall>l ni. owner s l = Some ni \<longrightarrow> items s ni = Some l)"

definition collected_ok :: "'a nhood_scheme \<Rightarrow> bool" where
  "collected_ok s \<longleftrightarrow> (\<forall>ni \<in> set (allNItems s). \<exists>l. owner s l = Some ni)"

fun holds :: "ptr_pc \<Rightarrow> NItem option" where
  "holds (AtTryMap l ni) = Some ni"
| "holds (AtPush l ni) = Some ni"
| "holds (AtDestroy l ni) = Some ni"
| "holds _ = None"

fun place_ok :: "'a nhood_scheme \<Rightarrow> ptr_pc \<Rightarrow> bool" where
  "place_ok s (AtTryMap l ni) = (items s ni = Some l \<and> (\<forall>l'. owner s l' \<noteq> Some ni))"
| "place_ok s (AtPush l ni) = (owner s l = Some ni \<and> ni \<notin> set (allNItems s))"
| "place_ok s (AtDestroy l ni) =
     (items s ni = Some l \<and> (\<forall>l'. owner s l' \<noteq> Some ni) \<and> owner s l \<noteq> None)"
| "place_ok s (AtReturn l) = (owner s l \<noteq> None)"
| "place_ok s _ = True"

definition ptr_inv :: "('a nhood_scheme, ptr_pc) config \<Rightarrow> bool" where
  "ptr_inv c \<longleftrightarrow>
     alloc_ok (shared c) \<and> bound_ok (shared c) \<and> collected_ok (shared c)
     \<and> (\<forall>t. place_ok (shared c) (pcs c t))
     \<and> (\<forall>t t' a. t \<noteq> t' \<longrightarrow> holds (pcs c t) = Some a \<longrightarrow> holds (pcs c t') \<noteq> Some a)
     \<and> (\<forall>x \<in> set (returned c). owner (shared c) (fst x) = Some (snd x))"


text \<open>
  \<open>MapBasedNhoodMgr\<close> adds the map from lockables to records and its lock.

  Modelled from the spec: \<open>ThreadRWlock\<close> is not part of the sources at hand. It is a
  reader/writer lock: a reader waits while a writer holds it, a writer waits while a reader
  or a writer holds it. A lock operation that has to wait gives no new state.
  \<open>std::unordered_map::insert\<close> inserts nothing when the key is present.

  Modelled from the spec: \<open>NItem::Factory::create\<close> is not part of the sources at hand
  (\<open>OrdLocFactoryBase\<close> has \<open>construct\<close> only). The record is created if absent: the
  factory hands out a newly constructed record for the lockable, as
  \<open>PtrBasedNhoodMgr::create\<close> does.
\<close>

record map_nhood = nhood +
  nhoodMap :: "Lockable \<rightharpoonup> NItem"
  readers :: nat
  writer :: bool

definition readLock :: "'a map_nhood_scheme \<Rightarrow> 'a map_nhood_scheme option" where
  "readLock s = (if writer s then None else Some (s\<lparr>readers := Suc (readers s)\<rparr>))"

definition readUnlock :: "'a map_nhood_scheme \<Rightarrow> 'a map_nhood_scheme" where
  "readUnlock s = s\<lparr>readers := readers s - 1\<rparr>"

definition writeLock :: "'a map_nhood_scheme \<Rightarrow> 'a map_nhood_scheme option" where
  "writeLock s = (if writer s \<or> readers s \<noteq> 0 then None else Some (s\<lparr>writer := True\<rparr>))"

definition writeUnlock :: "'a map_nhood_scheme \<Rightarrow> 'a map_nhood_scheme" where
  "writeUnlock s = s\<lparr>writer := False\<rparr>"

definition map_find :: "'a map_nhood_scheme \<Rightarrow> Lockable \<Rightarrow> NItem option" where
  "map_find s l = nhoodMap s l"

definition map_insert :: "Lockable \<Rightarrow> NItem \<Rightarrow> 'a map_nhood_scheme \<Rightarrow> 'a map_nhood_scheme" where
  "map_insert l ni s =
     (case nhoodMap s l of
        None \<Rightarrow> s\<lparr>nhoodMap := (nhoodMap s)(l \<mapsto> ni)\<rparr>
      | Some other \<Rightarrow> s)"

definition factory_create :: "Lockable \<Rightarrow> 'a nhood_scheme \<Rightarrow> NItem \<times> 'a nhood_scheme" where
  "factory_create l s = create l s"

definition locked :: "'s option \<Rightarrow> error + 's" where
  "locked r = (case r of None \<Rightarrow> Inl Blocked | Some s \<Rightarrow> Inr s)"

definition map_getNhoodItem ::
  "Lockable \<Rightarrow> 'a map_nhood_scheme \<Rightarrow> error + (NItem \<times> 'a map_nhood_scheme)" where
  "map_getNhoodItem l s =
     then_do (locked (readLock s)) (\<lambda>s1.
     then_do
       (case map_find s1 l of
          Some ni \<Rightarrow> Inr (Some ni, s1)
        | None \<Rightarrow>
            then_do (locked (writeLock (readUnlock s1))) (\<lambda>s2.
            then_do
              (locked (readLock (writeUnlock
                 (if map_find s2 l = None
                  then (case factory_create l s2 of
                          (ni, s') \<Rightarrow> map_insert l ni (push_back ni s'))
                  else s2))))
              (\<lambda>s3. Inr (map_find s3 l, s3))))
       (\<lambda>(i, s4).
          (case i of
             None \<Rightarrow> Inl AssertFailed
           | Some ni \<Rightarrow> Inr (ni, readUnlock s4))))"

text \<open>
  The places of a thread in \<open>MapBasedNhoodMgr::getNhoodItem\<close>, one before every
  operation on the lock, the map, the factory and the collection; the last
  \<open>readUnlock\<close> carries the result of the lookup before it.
\<close>

datatype map_pc =
    MIdle
  | MReadLock Lockable
  | MFind Lockable
  | MReadUnlockMiss Lockable
  | MWriteLock Lockable
  | MRecheck Lockable
  | MCreate Lockable
  | MPush Lockable NItem
  | MInsert Lockable NItem
  | MWriteUnlock Lockable
  | MReadLock2 Lockable
  | MFind2 Lockable
  | MReadUnlock Lockable "NItem option"
  | MAborted

fun map_step ::
  "map_pc \<Rightarrow> 'a map_nhood_scheme
   \<Rightarrow> map_pc \<times> 'a map_nhood_scheme \<times> (Lockable \<times> NItem) option" where
  "map_step (MReadLock l) s =
     (case readLock s of None \<Rightarrow> (MReadLock l, s, None) | Some s' \<Rightarrow> (MFind l, s', None))"
| "map_step (MFind l) s =
     (case map_find s l of
        None \<Rightarrow> (MReadUnlockMiss l, s, None)
      | Some ni \<Rightarrow> (MReadUnlock l (Some ni), s, None))"
| "map_step (MReadUnlockMiss l) s = (MWriteLock l, readUnlock s, None)"
| "map_step (MWriteLock l) s =
     (case writeLock s of None \<Rightarrow> (MWriteLock l, s, None) | Some s' \<Rightarrow> (MRecheck l, s', None))"
| "map_step (MRecheck l) s =
     (if map_find s l = None then (MCreate l, s, None) else (MWriteUnlock l, s, None))"
| "map_step (MCreate l) s = (case factory_create l s of (ni, s') \<Rightarrow> (MPush l ni, s', None))"
| "map_step (MPush l ni) s = (MInsert l ni, push_back ni s, None)"
| "map_step (MInsert l ni) s = (MWriteUnlock l, map_insert l ni s, None)"
| "map_step (MWriteUnlock l) s = (MReadLock2 l, writeUnlock s, None)"
| "map_step (MReadLock2 l) s =
     (case readLock s of None \<Rightarrow> (MReadLock2 l, s, None) | Some s' \<Rightarrow> (MFind2 l, s', None))"
| "map_step (MFind2 l) s = (MReadUnlock l (map_find s l), s, None)"
| "map_step (MReadUnlock l i) s =
     (case i of
        None \<Rightarrow> (MAborted, readUnlock s, None)
      | Some ni \<Rightarrow> (MIdle, readUnlock s, Some (l, ni)))"
| "map_step MIdle s = (MIdle, s, None)"
| "map_step MAborted s = (MAborted, s, None)"

fun map_exec ::
  "event \<Rightarrow> ('a map_nhood_scheme, map_pc) config \<Rightarrow> ('a map_nhood_scheme, map_pc) config" where
  "map_exec (Call t l) c =
     (if pcs c t = MIdle then c\<lparr>pcs := (pcs c)(t := MReadLock l)\<rparr> else c)"
| "map_exec (Step t) c =
     (case map_step (pcs c t) (shared c) of
        (pc', s', r) \<Rightarrow>
          c\<lparr>shared := s', pcs := (pcs c)(t := pc'),
            returned := (case r of None \<Rightarrow> returned c | Some x \<Rightarrow> returned c @ [x])\<rparr>)"

definition map_run ::
  "event list \<Rightarrow> ('a map_nhood_scheme, map_pc) config
   \<Rightarrow> ('a map_nhood_scheme, map_pc) config" where
  "map_run sched c = foldl (\<lambda>c e. map_exec e c) c sched"

definition empty_map_nhood :: map_nhood where
  "empty_map_nhood =
     \<lparr> owner = Map.empty, items = Map.empty, free_list = [], fresh = 0, allNItems = [],
       nhoodMap = Map.empty, readers = 0, writer = False \<rparr>"

definition map_init :: "(map_nhood, map_pc) config" where
  "map_init = \<lparr> shared = empty_map_nhood, pcs = (\<lambda>t. MIdle), returned = [] \<rparr>"

text \<open>
  What holds between the steps of the threads of the map-based manager: a record that
  the map has for a lockable is constructed and has that lockable in its field; at most
  one thread is between \<open>writeLock\<close> and \<open>writeUnlock\<close>, and then the lock is held for
  writing; a thread that creates a record for a lockable finds the lockable absent from the
  map until it inserts; every collected record is in the map or is about to be inserted;
  a thread past the creation finds the lockable in the map; a call that has returned has
  returned the record the map has for its lockable.
\<close>

fun in_write :: "map_pc \<Rightarrow> bool" where
  "in_write (MRecheck l) = True"
| "in_write (MCreate l) = True"
| "in_write (MPush l ni) = True"
| "in_write (MInsert l ni) = True"
| "in_write (MWriteUnlock l) = True"
| "in_write _ = False"

fun map_place_ok :: "'a map_nhood_scheme \<Rightarrow> map_pc \<Rightarrow> bool" where
  "map_place_ok s (MCreate l) = (nhoodMap s l = None)"
| "map_place_ok s (MPush l ni) =
     (nhoodMap s l = None \<and> items s ni = Some l \<and> ni \<notin> set (allNItems s)
      \<and> (\<forall>l'. nhoodMap s l' \<noteq> Some ni))"
| "map_place_ok s (MInsert l ni) =
     (nhoodMap s l = None \<and> items s ni = Some l \<and> (\<forall>l'. nhoodMap s l' \<noteq> Some ni))"
| "map_place_ok s (MWriteUnlock l) = (nhoodMap s l \<noteq> None)"
| "map_place_ok s (MReadLock2 l) = (nhoodMap s l \<noteq> None)"
| "map_place_ok s (MFind2 l) = (nhoodMap s l \<noteq> None)"
| "map_place_ok s (MReadUnlock l i) = (i \<noteq> None \<and> nhoodMap s l = i)"
| "map_place_ok s _ = True"

definition mapped_ok :: "'a map_nhood_scheme \<Rightarrow> bool" where
  "mapped_ok s \<longleftrightarrow> (\<forall>l ni. nhoodMap s l = Some ni \<longrightarrow> items s ni = Some l)"

definition map_inv :: "('a map_nhood_scheme, map_pc) config \<Rightarrow> bool" where
  "map_inv c \<longleftrightarrow>
     alloc_ok (shared c) \<and> mapped_ok (shared c)
     \<and> distinct (allNItems (shared c))
     \<and> (\<forall>t. map_place_ok (shared c) (pcs c t))
     \<and> (\<forall>t. in_write (pcs c t) \<longrightarrow> writer (shared c))
     \<and> (\<forall>t t'. in_write (pcs c t) \<longrightarrow> in_write (pcs c t') \<longrightarrow> t = t')
     \<and> (\<forall>ni \<in> set (allNItems (shared c)).
           (\<exists>l. nhoodMap (shared c) l = Some ni) \<or> (\<exists>t l. pcs c t = MInsert l ni))
     \<and> (\<forall>x \<in> set (returned c). nhoodMap (shared c) (fst x) = Some (snd x))"


fun thread_of :: "event \<Rightarrow> nat" where
  "thread_of (Call t l) = t"
| "thread_of (Step t) = t"

text \<open>
  Two threads that ask for the record of lockable 5 at the same time, step by step in
  turn: with the pointer-based manager both create a candidate and thread 0 wins the
  compare-and-swap; with the map-based manager both miss in the map and thread 0 gets the
  write lock first.
\<close>

definition ptr_race_sched :: "event list" where
  "ptr_race_sched =
     [Call 0 5, Call 1 5, Step 0, Step 1, Step 0, Step 1, Step 0, Step 1, Step 0, Step 1,
      Step 0, Step 1]"

definition map_race_sched :: "event list" where
  "map_race_sched =
     [Call 0 5, Call 1 5, Step 0, Step 1, Step 0, Step 1, Step 0, Step 1, Step 0, Step 1,
      Step 0, Step 0, Step 0, Step 0, Step 0, Step 1, Step 1, Step 1, Step 0, Step 1,
      Step 0, Step 1, Step 0, Step 1]"


definition ptr_contended :: "(nhood, ptr_pc) config" where
  "ptr_contended = ptr_run [Call 0 5, Call 1 5, Step 0, Step 1, Step 0, Step 1, Step 0] ptr_init"

text \<open>
  The state of a pointer-based manager that has not been reset yet, while no call is in
  progress: beside the above, the collected records are exactly the records that own a
  lockable, each collected once. For the map-based manager that has not been reset yet:
  the collected records are the records of the map, and the owner slot of a lockable of
  the map is free or holds the lockable's record. (\<open>resetAllNItems\<close> leaves the
  destroyed records in the collection, so that neither holds after it.)
\<close>

definition quiet_ok :: "'a nhood_scheme \<Rightarrow> bool" where
  "quiet_ok s \<longleftrightarrow>
     alloc_ok s \<and> bound_ok s \<and> collected_ok s \<and> distinct (allNItems s)
     \<and> (\<forall>l ni. owner s l = Some ni \<longrightarrow> ni \<in> set (allNItems s))"

definition map_quiet_ok :: "'a map_nhood_scheme \<Rightarrow> bool" where
  "map_quiet_ok s \<longleftrightarrow>
     alloc_ok s \<and> mapped_ok s \<and> distinct (allNItems s)
     \<and> (\<forall>ni \<in> set (allNItems s). \<exists>l. nhoodMap s l = Some ni)
     \<and> (\<forall>l ni. nhoodMap s l = Some ni \<longrightarrow> owner s l = None \<or> owner s l = Some ni)"






section \<open>Properties of the structural graph's compressed-row view\<close>

lemma length_offsets: "length (offsets acc g) = length g"
  by (induction g arbitrary: acc) auto

lemma offsets_nth:
  "n < length g \<Longrightarrow> offsets acc g ! n = acc + length (concat (take (Suc n) g))"
proof (induction g arbitrary: acc n)
  case Nil
  then show ?case by simp
next
  case (Cons a g)
  then show ?case by (cases n) auto
qed

lemma concat_take_Suc_le: "length (concat (take n g)) \<le> length (concat (take (Suc n) g))"
proof (induction g arbitrary: n)
  case Nil
  then show ?case by simp
next
  case (Cons a g)
  then show ?case by (cases n) auto
qed

lemma concat_take_le: "length (concat (take n g)) \<le> length (concat g)"
proof (induction g arbitrary: n)
  case Nil
  then show ?case by simp
next
  case (Cons a g)
  then show ?case by (cases n) auto
qed

lemma slice_concat:
  "n < length g \<Longrightarrow>
   drop (length (concat (take n g))) (take (length (concat (take (Suc n) g))) (concat g)) = g ! n"
proof (induction g arbitrary: n)
  case Nil
  then show ?case by simp
next
  case (Cons a g)
  then show ?case by (cases n) auto
qed

lemma collect_at_upt:
  "b \<le> e \<Longrightarrow> e \<le> length xs \<Longrightarrow> collect (at xs) [b..<e] = Inr (drop b (take e xs))"
proof (induction "e - b" arbitrary: b)
  case 0
  then show ?case by simp
next
  case (Suc k)
  then have lt: "b < e" by simp
  then have "collect (at xs) [Suc b..<e] = Inr (drop (Suc b) (take e xs))"
    using Suc by simp
  moreover have "drop b (take e xs) = xs ! b # drop (Suc b) (take e xs)"
    using lt Suc.prems Cons_nth_drop_Suc [of b "take e xs"] by simp
  ultimately show ?case
    using lt Suc.prems by (simp add: upt_conv_Cons at_def)
qed


section \<open>Properties of the flat compressed-row graph\<close>

lemma then_do_Inr_iff: "then_do m f = Inr y \<longleftrightarrow> (\<exists>x. m = Inr x \<and> f x = Inr y)"
  by (cases m) auto

lemma structureFromGraph_sel:
  "nodeData (structureFromGraph d g) = replicate (fg_size g) d"
  "edgeIndData (structureFromGraph d g) = edge_id g"
  "edgeDst (structureFromGraph d g) = node_id g"
  "edgeData (structureFromGraph d g) = edge_data g"
  "numNodes (structureFromGraph d g) = fg_size g"
  "numEdges (structureFromGraph d g) = fg_sizeEdges g"
  by (simp_all add: structureFromGraph_def)

lemma scenario_load:
  "structureFromGraph d scenario_graph =
     \<lparr> nodeData = [d, d, d, d], edgeIndData = [2, 3, 4, 4], edgeDst = [1, 2, 2, 3],
       edgeData = [5, 1, 3, 2], numNodes = 4, numEdges = 4 \<rparr>"
  by (simp add: structureFromGraph_def scenario_graph_def fg_size_def fg_sizeEdges_def
      edge_id_def node_id_def edge_data_def numeral_eq_Suc)

lemma acquire_neighbors_end:
  "ii = ee \<Longrightarrow> acquire_neighbors G ctx mflag ii ee own = Inr own"
  by (simp add: acquire_neighbors.simps [of G ctx mflag ee ee own])

lemma acquire_neighbors_step:
  "ii \<noteq> ee \<Longrightarrow> ii < length (edgeDst G) \<Longrightarrow>
   acquire_neighbors G ctx mflag ii ee own =
     then_do (acquire_node G ctx (edgeDst G ! ii) mflag own)
       (acquire_neighbors G ctx mflag (Suc ii) ee)"
  by (simp add: acquire_neighbors.simps [of G ctx mflag ii ee own])

lemma getEdgeIdx_loop_end: "ii = ee \<Longrightarrow> getEdgeIdx_loop G dst ii ee = Inr npos"
  by (simp add: getEdgeIdx_loop.simps [of G dst ee ee])

lemma getEdgeIdx_loop_step:
  "ii \<noteq> ee \<Longrightarrow> ii < length (edgeDst G) \<Longrightarrow>
   getEdgeIdx_loop G dst ii ee =
     (if edgeDst G ! ii = dst then Inr ii else getEdgeIdx_loop G dst (Suc ii) ee)"
  by (simp add: getEdgeIdx_loop.simps [of G dst ii ee])

lemma raw_neighbor_begin_load:
  "N < length g \<Longrightarrow>
   raw_neighbor_begin (structureFromGraph d g) N = Inr (length (concat (take N g)))"
  by (cases N)
    (auto simp: raw_neighbor_begin_def structureFromGraph_def edge_id_def at_def
      length_offsets offsets_nth)

lemma raw_neighbor_end_load:
  "N < length g \<Longrightarrow>
   raw_neighbor_end (structureFromGraph d g) N = Inr (length (concat (take (Suc N) g)))"
  by (auto simp: raw_neighbor_end_def structureFromGraph_def edge_id_def at_def
      length_offsets offsets_nth)

lemma node_id_slice:
  assumes "N < length g"
  shows "drop (length (concat (take N g))) (take (length (concat (take (Suc N) g))) (node_id g))
         = neighbors g N"
  using slice_concat [OF assms]
  by (simp add: node_id_def neighbors_def take_map drop_map del: take_Suc)

lemma edge_begin_fst:
  "edge_begin G ctx N mflag own = Inr (b, own') \<Longrightarrow> raw_neighbor_begin G N = Inr b"
  by (auto simp: edge_begin_def then_do_Inr_iff)

lemma edge_end_fst:
  "edge_end G ctx N mflag own = Inr (e, own') \<Longrightarrow> raw_neighbor_end G N = Inr e"
  by (auto simp: edge_end_def then_do_Inr_iff)

lemma out_edges_range:
  assumes "out_edges G ctx N mflag own = Inr (es, own')"
  shows "\<exists>b e. raw_neighbor_begin G N = Inr b \<and> raw_neighbor_end G N = Inr e
               \<and> b \<le> e \<and> es = [b..<e]"
  using assms
  by (auto simp: out_edges_def then_do_Inr_iff edge_range_def split: if_splits
      dest!: edge_begin_fst edge_end_fst)

lemma load_edge_dsts:
  assumes "N < length g"
  shows "collect (getEdgeDst (structureFromGraph d g))
           [length (concat (take N g))..<length (concat (take (Suc N) g))]
         = Inr (neighbors g N)"
proof -
  have "getEdgeDst (structureFromGraph d g) = at (node_id g)"
    by (auto simp: getEdgeDst_def structureFromGraph_sel fun_eq_iff)
  moreover have "length (concat (take (Suc N) g)) \<le> length (node_id g)"
    using concat_take_le [of "Suc N" g] by (simp add: node_id_def)
  ultimately show ?thesis
    using collect_at_upt [of "length (concat (take N g))"
        "length (concat (take (Suc N) g))" "node_id g"]
      concat_take_Suc_le [of N g] node_id_slice [OF assms]
    by simp
qed

lemma load_degree:
  assumes "N < length g"
  shows "length (concat (take (Suc N) g)) - length (concat (take N g)) = length (neighbors g N)"
  using assms by (simp add: take_Suc_conv_app_nth neighbors_def)

lemma out_edges_none_load:
  assumes "N < length g"
  shows "out_edges (structureFromGraph d g) ctx N \<lparr>policy = none, writeIntent = w\<rparr> own
         = Inr ([length (concat (take N g))..<length (concat (take (Suc N) g))], own)"
  using assms concat_take_Suc_le [of N g]
  by (simp add: out_edges_def edge_begin_def edge_end_def acquire_node_def acquire_def
      shouldLock_def raw_neighbor_begin_load raw_neighbor_end_load edge_range_def
      structureFromGraph_sel fg_size_def)

lemma scenario_out_edges:
  "out_edges (structureFromGraph d scenario_graph) 7 0
     \<lparr>policy = checkRaceAndNeighbors, writeIntent = False\<rparr> Map.empty
   = Inr ([0, 1], [0 \<mapsto> 7, 1 \<mapsto> 7, 2 \<mapsto> 7])"
  by (simp add: scenario_load out_edges_def edge_begin_def edge_end_def acquire_node_def
      acquire_def doAcquire_def shouldLock_def raw_neighbor_begin_def raw_neighbor_end_def
      at_def edge_range_def acquire_neighbors_end acquire_neighbors_step upt_conv_Cons)

text \<open>
  Claim C5. For a structural graph loaded into \<open>LC_CSR_Graph\<close> by
  \<open>structureFromGraph\<close> and a node \<open>N\<close> of it, the edge range from
  \<open>edge_begin(N)\<close> to \<open>edge_end(N)\<close> has as many positions as the structural graph
  has neighbours of \<open>N\<close>, and \<open>getEdgeDst\<close> over the range gives the structural
  graph's neighbour sequence of \<open>N\<close> in the same order. Under the policy \<open>none\<close>
  the range is always delivered; under a locking policy it is delivered unless a claim fails,
  and every range that is delivered is the right one.
\<close>

theorem structureFromGraph_edges:
  assumes "N < fg_size graph"
  shows "(\<exists>es. out_edges (structureFromGraph d graph) ctx N
                 \<lparr>policy = none, writeIntent = w\<rparr> own = Inr (es, own)
             \<and> length es = length (neighbors graph N)
             \<and> collect (getEdgeDst (structureFromGraph d graph)) es = Inr (neighbors graph N))
       \<and> (\<forall>mflag own0 es own'.
             out_edges (structureFromGraph d graph) ctx N mflag own0 = Inr (es, own')
             \<longrightarrow> length es = length (neighbors graph N)
               \<and> collect (getEdgeDst (structureFromGraph d graph)) es
                   = Inr (neighbors graph N))"
proof -
  have N: "N < length graph"
    using assms by (simp add: fg_size_def)
  let ?G = "structureFromGraph d graph"
  let ?b = "length (concat (take N graph))" and ?e = "length (concat (take (Suc N) graph))"
  have len: "length [?b..<?e] = length (neighbors graph N)"
    using load_degree [OF N] by simp
  have dst: "collect (getEdgeDst ?G) [?b..<?e] = Inr (neighbors graph N)"
    by (rule load_edge_dsts [OF N])
  have any: "es = [?b..<?e]" if "out_edges ?G ctx N mflag own0 = Inr (es, own')"
    for mflag own0 es own'
    using out_edges_range [OF that] N
    by (auto simp: raw_neighbor_begin_load raw_neighbor_end_load)
  have one: "\<exists>es. out_edges ?G ctx N \<lparr>policy = none, writeIntent = w\<rparr> own = Inr (es, own)
             \<and> length es = length (neighbors graph N)
             \<and> collect (getEdgeDst ?G) es = Inr (neighbors graph N)"
    using out_edges_none_load [OF N, of d ctx w own] len dst
    by (intro exI [of _ "[?b..<?e]"]) simp
  have all: "\<forall>mflag own0 es own'. out_edges ?G ctx N mflag own0 = Inr (es, own')
             \<longrightarrow> length es = length (neighbors graph N)
               \<and> collect (getEdgeDst ?G) es = Inr (neighbors graph N)"
  proof (intro allI impI)
    fix mflag own0 es own'
    assume "out_edges ?G ctx N mflag own0 = Inr (es, own')"
    then have "es = [?b..<?e]" by (rule any)
    then show "length es = length (neighbors graph N)
               \<and> collect (getEdgeDst ?G) es = Inr (neighbors graph N)"
      using len dst by simp
  qed
  show ?thesis using one all by (rule conjI)
qed

theorem structureFromGraph_edges_witness:
  "(0::nat) < fg_size scenario_graph
   \<and> out_edges (structureFromGraph () scenario_graph) 7 0
        \<lparr>policy = checkRaceAndNeighbors, writeIntent = False\<rparr> Map.empty
       = Inr ([0, 1], [0 \<mapsto> 7, 1 \<mapsto> 7, 2 \<mapsto> 7])
   \<and> length [0, 1 :: nat] = length (neighbors scenario_graph 0)
   \<and> collect (getEdgeDst (structureFromGraph () scenario_graph)) [0, 1] = Inr [1, 2]"
proof -
  have h: "(0::nat) < fg_size scenario_graph"
    by (simp add: fg_size_def scenario_graph_def)
  have nb: "neighbors scenario_graph 0 = [1, 2]"
    by (simp add: neighbors_def scenario_graph_def)
  show ?thesis
    using h nb scenario_out_edges [of "()"]
      structureFromGraph_edges [OF h, of "()" 7 False Map.empty, THEN conjunct2, rule_format,
        OF scenario_out_edges [of "()"]]
    by simp
qed

lemma npos_gt: "i < e \<Longrightarrow> e < 2 ^ 64 \<Longrightarrow> i \<noteq> npos"
  by (simp add: npos_def)

lemma getEdgeIdx_loop_found:
  "b \<le> e \<Longrightarrow> e \<le> length (edgeDst G) \<Longrightarrow>
   \<exists>i. getEdgeIdx_loop G dst b e = Inr i \<and>
       (if dst \<in> set (drop b (take e (edgeDst G)))
        then b \<le> i \<and> i < e \<and> edgeDst G ! i = dst else i = npos)"
proof (induction "e - b" arbitrary: b)
  case 0
  then show ?case by (simp add: getEdgeIdx_loop_end)
next
  case (Suc k)
  then have lt: "b < e" by simp
  have split: "drop b (take e (edgeDst G)) = edgeDst G ! b # drop (Suc b) (take e (edgeDst G))"
    using lt Suc.prems Cons_nth_drop_Suc [of b "take e (edgeDst G)"] by simp
  show ?case
  proof (cases "edgeDst G ! b = dst")
    case True
    then show ?thesis
      using lt Suc.prems split by (simp add: getEdgeIdx_loop_step)
  next
    case False
    have "\<exists>i. getEdgeIdx_loop G dst (Suc b) e = Inr i \<and>
       (if dst \<in> set (drop (Suc b) (take e (edgeDst G)))
        then Suc b \<le> i \<and> i < e \<and> edgeDst G ! i = dst else i = npos)"
      using Suc lt by (intro Suc.hyps(1)) auto
    then show ?thesis
      using False lt Suc.prems split by (auto simp: getEdgeIdx_loop_step)
  qed
qed

text \<open>
  Claim C10. For a loaded \<open>LC_CSR_Graph\<close>, a node \<open>src\<close> of it and any \<open>dst\<close>,
  \<open>hasNeighbor(src, dst, mflag)\<close> is true exactly when \<open>dst\<close> is among the
  destinations of \<open>src\<close>'s out-edges (which are the structural graph's neighbours of
  \<open>src\<close>), and it leaves every owner slot as it was, whatever \<open>mflag\<close> is. The edge
  count fits \<open>uint64_t\<close>, so that no edge position is the sentinel.
\<close>

theorem hasNeighbor_iff:
  assumes "src < fg_size graph" and "fg_sizeEdges graph < 2 ^ 64"
  shows "hasNeighbor (structureFromGraph d graph) ctx src dst mflag own
         = Inr (dst \<in> set (neighbors graph src), own)"
proof -
  let ?G = "structureFromGraph d graph"
  let ?b = "length (concat (take src graph))" and ?e = "length (concat (take (Suc src) graph))"
  have N: "src < length graph"
    using assms(1) by (simp add: fg_size_def)
  have be: "?b \<le> ?e"
    by (rule concat_take_Suc_le)
  have e: "?e \<le> length (edgeDst ?G)"
    using concat_take_le [of "Suc src" graph] by (simp add: structureFromGraph_sel node_id_def)
  have small: "?e < 2 ^ 64"
    using concat_take_le [of "Suc src" graph] assms(2) by (simp add: fg_sizeEdges_def)
  obtain i where i: "getEdgeIdx_loop ?G dst ?b ?e = Inr i"
    and cases: "if dst \<in> set (drop ?b (take ?e (edgeDst ?G)))
                then ?b \<le> i \<and> i < ?e \<and> edgeDst ?G ! i = dst else i = npos"
    using getEdgeIdx_loop_found [OF be e, of dst] by blast
  have "drop ?b (take ?e (edgeDst ?G)) = neighbors graph src"
    using node_id_slice [OF N] by (simp add: structureFromGraph_sel)
  then have "(i \<noteq> npos) = (dst \<in> set (neighbors graph src))"
    using cases npos_gt [OF _ small, of i]
    by (cases "dst \<in> set (neighbors graph src)") simp_all
  then show ?thesis
    using i N
    by (simp add: hasNeighbor_def getEdgeIdx_def raw_neighbor_begin_load raw_neighbor_end_load)
qed

theorem hasNeighbor_iff_witness:
  "(0::nat) < fg_size scenario_graph \<and> fg_sizeEdges scenario_graph < 2 ^ 64
   \<and> hasNeighbor (structureFromGraph () scenario_graph) 7 0 2
        \<lparr>policy = checkRaceAndNeighbors, writeIntent = False\<rparr> Map.empty
       = Inr (True, Map.empty)"
proof -
  have h1: "(0::nat) < fg_size scenario_graph"
    by (simp add: fg_size_def scenario_graph_def)
  have h2: "fg_sizeEdges scenario_graph < 2 ^ 64"
    by (simp add: fg_sizeEdges_def scenario_graph_def)
  have "(2::nat) \<in> set (neighbors scenario_graph 0)"
    by (simp add: neighbors_def scenario_graph_def)
  then show ?thesis
    using h1 h2
      hasNeighbor_iff [OF h1 h2, of "()" 7 2
        "\<lparr>policy = checkRaceAndNeighbors, writeIntent = False\<rparr>" Map.empty]
    by simp
qed


section \<open>Sorting the edges of a node\<close>

lemma collect_Inr_map: "(\<And>x. x \<in> set xs \<Longrightarrow> f x = Inr (g x)) \<Longrightarrow> collect f xs = Inr (map g xs)"
  by (induction xs) auto

lemma map_nth_shift: "length S = e - b \<Longrightarrow> map (\<lambda>i. S ! (i - b)) [b..<e] = S"
  by (auto simp: list_eq_iff_nth_eq)

lemma map_nth_slice: "e \<le> length xs \<Longrightarrow> map (\<lambda>i. xs ! i) [b..<e] = drop b (take e xs)"
  by (auto simp: list_eq_iff_nth_eq)

lemma mset_insert_by: "mset (insert_by cmp x xs) = add_mset x (mset xs)"
  by (induction xs) auto

lemma mset_std_sort: "mset (std_sort cmp xs) = mset xs"
  unfolding std_sort_def by (induction xs) (auto simp: mset_insert_by)

lemma length_std_sort: "length (std_sort cmp xs) = length xs"
  using mset_std_sort [of cmp xs] by (metis size_mset)

lemma edge_pairs_before:
  assumes "e \<le> length (edgeDst G)" "e \<le> length (edgeData G)"
  shows "collect (edge_pair G) [b..<e]
         = Inr (zip (drop b (take e (edgeDst G))) (drop b (take e (edgeData G))))"
proof -
  have "collect (edge_pair G) [b..<e] = Inr (map (\<lambda>i. (edgeDst G ! i, edgeData G ! i)) [b..<e])"
    using assms by (intro collect_Inr_map) (auto simp: edge_pair_def getEdgeDst_def getEdgeData_def at_def)
  moreover have "map (\<lambda>i. (edgeDst G ! i, edgeData G ! i)) [b..<e]
        = zip (map (\<lambda>i. edgeDst G ! i) [b..<e]) (map (\<lambda>i. edgeData G ! i) [b..<e])"
    by (simp add: zip_map_map) (simp add: zip_same_conv_map)
  ultimately show ?thesis
    using assms by (simp add: map_nth_slice)
qed

lemma edge_pairs_after:
  assumes "b \<le> e" "e \<le> length D" "e \<le> length W" "length S = e - b"
    and "edgeDst G' = take b D @ map fst S @ drop e D"
    and "edgeData G' = take b W @ map snd S @ drop e W"
  shows "collect (edge_pair G') [b..<e] = Inr S"
proof -
  have "collect (edge_pair G') [b..<e] = Inr (map (\<lambda>i. S ! (i - b)) [b..<e])"
  proof (intro collect_Inr_map)
    fix i assume "i \<in> set [b..<e]"
    then have i: "b \<le> i" "i < e" by auto
    have ib: "i - b < e - b" "i - b < length S" "\<not> i < b"
      using i assms(4) by auto
    have lb: "length (take b D) = b" "length (take b W) = b"
      using assms(1-3) by auto
    have "edgeDst G' ! i = fst (S ! (i - b))"
      using ib lb by (simp add: assms(5) nth_append)
    moreover have "edgeData G' ! i = snd (S ! (i - b))"
      using ib lb by (simp add: assms(6) nth_append)
    moreover have "i < length (edgeDst G')" "i < length (edgeData G')"
      using i assms by auto
    ultimately show "edge_pair G' i = Inr (S ! (i - b))"
      by (simp add: edge_pair_def getEdgeDst_def getEdgeData_def at_def)
  qed
  then show ?thesis using assms(4) by (simp add: map_nth_shift)
qed

lemma sort_range_pairs:
  assumes "sort_range cmp b e G = Inr G'"
  shows "edgeIndData G' = edgeIndData G \<and> nodeData G' = nodeData G
         \<and> (\<exists>ps ps'. collect (edge_pair G) [b..<e] = Inr ps
               \<and> collect (edge_pair G') [b..<e] = Inr ps' \<and> mset ps' = mset ps)"
proof -
  let ?ps = "zip (drop b (take e (edgeDst G))) (drop b (take e (edgeData G)))"
  let ?S = "std_sort cmp ?ps"
  have ok: "b \<le> e" "e \<le> length (edgeDst G)" "e \<le> length (edgeData G)"
    using assms by (auto simp: sort_range_def split: if_splits)
  have G': "G' = G\<lparr> edgeDst := take b (edgeDst G) @ map fst ?S @ drop e (edgeDst G),
                     edgeData := take b (edgeData G) @ map snd ?S @ drop e (edgeData G) \<rparr>"
    using assms ok by (simp add: sort_range_def Let_def)
  have len: "length ?S = e - b"
    using ok by (simp add: length_std_sort)
  have "collect (edge_pair G') [b..<e] = Inr ?S"
    using ok len by (intro edge_pairs_after [of b e "edgeDst G" "edgeData G"]) (simp_all add: G')
  moreover have "collect (edge_pair G) [b..<e] = Inr ?ps"
    using ok by (intro edge_pairs_before)
  ultimately show ?thesis
    by (simp add: G' mset_std_sort)
qed

lemma scenario_out_edges_any:
  "\<exists>own'. out_edges (structureFromGraph d scenario_graph) ctx 0 mflag Map.empty = Inr ([0, 1], own')"
  by (cases "policy mflag")
   (simp_all add: scenario_load out_edges_def edge_begin_def edge_end_def acquire_node_def
      acquire_def doAcquire_def shouldLock_def raw_neighbor_begin_def raw_neighbor_end_def
      at_def edge_range_def acquire_neighbors_end acquire_neighbors_step upt_conv_Cons)

lemma scenario_sort:
  "\<exists>own'. sortEdgesByEdgeData (structureFromGraph d scenario_graph) ctx 0 (<) mflag Map.empty
      = Inr (sorted_scenario d, own') \<and> own' \<in> {Map.empty, [0 \<mapsto> ctx]}"
  by (cases "policy mflag")
    (simp_all add: scenario_load sortEdgesByEdgeData_def acquire_node_def acquire_def
      doAcquire_def raw_neighbor_begin_def raw_neighbor_end_def at_def sort_range_def
      std_sort_def EdgeSortCompWrapper_def sorted_scenario_def)

lemma sorted_scenario_out_edges:
  "own \<in> {Map.empty, [0 \<mapsto> ctx]} \<Longrightarrow> \<exists>own'. out_edges (sorted_scenario d) ctx 0 mflag own = Inr ([0, 1], own')"
  by (cases "policy mflag")
   (auto simp add: sorted_scenario_def out_edges_def edge_begin_def edge_end_def acquire_node_def
      acquire_def doAcquire_def shouldLock_def raw_neighbor_begin_def raw_neighbor_end_def
      at_def edge_range_def acquire_neighbors_end acquire_neighbors_step upt_conv_Cons)

lemma scenario_reads:
  "collect (getEdgeDst (structureFromGraph d scenario_graph)) [0, 1] = Inr [1, 2]"
  "collect (\<lambda>ni. getEdgeData (structureFromGraph d scenario_graph) ni mflag) [0, 1] = Inr [5, 1]"
  "collect (getEdgeDst (sorted_scenario d)) [0, 1] = Inr [2, 1]"
  "collect (\<lambda>ni. getEdgeData (sorted_scenario d) ni mflag) [0, 1] = Inr [1, 5]"
  by (simp_all add: scenario_load sorted_scenario_def getEdgeDst_def getEdgeData_def at_def)

lemma sortEdgesByEdgeData_pairs:
  assumes "sortEdgesByEdgeData G ctx N cmp mflag own = Inr (G', own')"
  shows "raw_neighbor_begin G' N = raw_neighbor_begin G N \<and> raw_neighbor_end G' N = raw_neighbor_end G N
       \<and> (\<exists>b e ps ps'. raw_neighbor_begin G N = Inr b \<and> raw_neighbor_end G N = Inr e \<and> b \<le> e
             \<and> collect (edge_pair G) [b..<e] = Inr ps
             \<and> collect (edge_pair G') [b..<e] = Inr ps' \<and> mset ps' = mset ps)"
proof -
  obtain b e where b: "raw_neighbor_begin G N = Inr b" and e: "raw_neighbor_end G N = Inr e"
    and s: "sort_range (EdgeSortCompWrapper cmp) b e G = Inr G'"
    using assms by (auto simp: sortEdgesByEdgeData_def then_do_Inr_iff)
  have "b \<le> e" using s by (auto simp: sort_range_def split: if_splits)
  then show ?thesis
    using sort_range_pairs [OF s] b e
    by (auto simp: raw_neighbor_begin_def raw_neighbor_end_def)
qed

lemma sortEdgesByEdgeData_none_load:
  assumes "N < length g"
  shows "\<exists>G'. sortEdgesByEdgeData (structureFromGraph d g) ctx N cmp \<lparr>policy = none, writeIntent = w\<rparr> own = Inr (G', own)"
proof -
  have "length (concat (take (Suc N) g)) \<le> length (concat g)" by (rule concat_take_le)
  then show ?thesis
  using assms concat_take_Suc_le [of N g] 
  by (simp add: sortEdgesByEdgeData_def acquire_node_def acquire_def raw_neighbor_begin_load raw_neighbor_end_load
      sort_range_def structureFromGraph_sel fg_size_def node_id_def edge_data_def Let_def)
qed


section \<open>Claims made by the edge-range accessor\<close>

lemma doAcquire_Inr: "doAcquire ctx l own = Inr own' \<Longrightarrow> own' = own(l \<mapsto> ctx)"
  by (auto simp: doAcquire_def split: option.splits if_splits)

lemma doAcquire_free: "own l = None \<or> own l = Some ctx \<Longrightarrow> doAcquire ctx l own = Inr (own(l \<mapsto> ctx))"
  by (auto simp: doAcquire_def split: option.splits)

lemma claim_all_empty: "claim_all ctx {} own = own"
  by (simp add: claim_all_def)

lemma claim_all_insert: "claim_all ctx (insert l S) own = claim_all ctx S (own(l \<mapsto> ctx))"
  by (auto simp: claim_all_def fun_eq_iff)

lemma claim_all_single: "claim_all ctx {l} own = own(l \<mapsto> ctx)"
  by (auto simp: claim_all_def fun_eq_iff)

lemma acquire_neighbors_frame:
  assumes "policy mflag \<noteq> none" "b \<le> e" "e \<le> length (edgeDst G)"
    and "acquire_neighbors G ctx mflag b e own = Inr own'"
  shows "own' = claim_all ctx (set (drop b (take e (edgeDst G)))) own"
  using assms(2-)
proof (induction "e - b" arbitrary: b own)
  case 0
  then show ?case by (simp add: acquire_neighbors_end claim_all_empty)
next
  case (Suc k)
  then have lt: "b < e" by simp
  have split: "drop b (take e (edgeDst G)) = edgeDst G ! b # drop (Suc b) (take e (edgeDst G))"
    using lt Suc.prems Cons_nth_drop_Suc [of b "take e (edgeDst G)"] by simp
  obtain own1 where a: "acquire_node G ctx (edgeDst G ! b) mflag own = Inr own1"
    and r: "acquire_neighbors G ctx mflag (Suc b) e own1 = Inr own'"
    using Suc.prems lt by (auto simp: acquire_neighbors_step then_do_Inr_iff)
  have "own1 = own(edgeDst G ! b \<mapsto> ctx)"
    using a assms(1) by (auto simp: acquire_node_def acquire_def split: if_splits dest: doAcquire_Inr)
  moreover have "own' = claim_all ctx (set (drop (Suc b) (take e (edgeDst G)))) own1"
    using Suc.hyps(2) lt Suc.prems(2) r by (intro Suc.hyps(1)) auto
  ultimately show ?case
    by (simp add: split claim_all_insert)
qed

lemma acquire_neighbors_total:
  assumes "policy mflag \<noteq> none" "b \<le> e" "e \<le> length (edgeDst G)"
    and "\<forall>l \<in> set (drop b (take e (edgeDst G))). l < length (nodeData G) \<and> (own l = None \<or> own l = Some ctx)"
  shows "acquire_neighbors G ctx mflag b e own
         = Inr (claim_all ctx (set (drop b (take e (edgeDst G)))) own)"
  using assms(2-)
proof (induction "e - b" arbitrary: b own)
  case 0
  then show ?case by (simp add: acquire_neighbors_end claim_all_empty)
next
  case (Suc k)
  then have lt: "b < e" by simp
  let ?l = "edgeDst G ! b"
  have split: "drop b (take e (edgeDst G)) = ?l # drop (Suc b) (take e (edgeDst G))"
    using lt Suc.prems Cons_nth_drop_Suc [of b "take e (edgeDst G)"] by simp
  have a: "acquire_node G ctx ?l mflag own = Inr (own(?l \<mapsto> ctx))"
    using Suc.prems(3) assms(1) by (simp add: split acquire_node_def acquire_def doAcquire_free)
  have "acquire_neighbors G ctx mflag (Suc b) e (own(?l \<mapsto> ctx))
        = Inr (claim_all ctx (set (drop (Suc b) (take e (edgeDst G)))) (own(?l \<mapsto> ctx)))"
    using Suc.hyps(2) lt Suc.prems(2,3) by (intro Suc.hyps(1)) (auto simp: split)
  then show ?case
    using lt Suc.prems(2) a by (simp add: acquire_neighbors_step split claim_all_insert)
qed

lemma edge_begin_load_frame:
  assumes N: "N < length g"
    and r: "edge_begin (structureFromGraph d g) ctx N mflag own = Inr (b, own')"
  shows "own' = claim_all ctx (policy_records (policy mflag) N (neighbors g N)) own"
proof -
  let ?G = "structureFromGraph d g"
  let ?b = "length (concat (take N g))" and ?e = "length (concat (take (Suc N) g))"
  have e: "?e \<le> length (edgeDst ?G)"
    using concat_take_le [of "Suc N" g] by (simp add: structureFromGraph_sel node_id_def)
  have sl: "drop ?b (take ?e (edgeDst ?G)) = neighbors g N"
    using node_id_slice [OF N] by (simp add: structureFromGraph_sel)
  show ?thesis
  proof (cases "policy mflag")
    case none
    then show ?thesis using r N
      by (auto simp: edge_begin_def then_do_Inr_iff acquire_node_def acquire_def shouldLock_def
          policy_records_def claim_all_empty split: if_splits)
  next
    case checkRace
    then show ?thesis using r N
      by (auto simp: edge_begin_def then_do_Inr_iff acquire_node_def acquire_def shouldLock_def
          policy_records_def claim_all_single split: if_splits dest: doAcquire_Inr)
  next
    case checkRaceAndNeighbors
    then obtain own1 where a: "doAcquire ctx N own = Inr own1"
      and n: "acquire_neighbors ?G ctx mflag ?b ?e own1 = Inr own'"
      using r N
      by (auto simp: edge_begin_def then_do_Inr_iff acquire_node_def acquire_def shouldLock_def
          raw_neighbor_begin_load raw_neighbor_end_load split: if_splits)
    have "own' = claim_all ctx (set (neighbors g N)) own1"
      using acquire_neighbors_frame [OF _ concat_take_Suc_le e n] checkRaceAndNeighbors sl by simp
    then show ?thesis
      using doAcquire_Inr [OF a] checkRaceAndNeighbors
      by (simp add: policy_records_def claim_all_insert)
  qed
qed

lemma edge_begin_load_total:
  assumes N: "N < length g"
    and valid: "\<forall>m \<in> set (neighbors g N). m < length g"
    and free: "\<forall>l \<in> policy_records (policy mflag) N (neighbors g N). own l = None \<or> own l = Some ctx"
  shows "edge_begin (structureFromGraph d g) ctx N mflag own
         = Inr (length (concat (take N g)), claim_all ctx (policy_records (policy mflag) N (neighbors g N)) own)"
proof -
  let ?G = "structureFromGraph d g"
  let ?b = "length (concat (take N g))" and ?e = "length (concat (take (Suc N) g))"
  have e: "?e \<le> length (edgeDst ?G)"
    using concat_take_le [of "Suc N" g] by (simp add: structureFromGraph_sel node_id_def)
  have sl: "drop ?b (take ?e (edgeDst ?G)) = neighbors g N"
    using node_id_slice [OF N] by (simp add: structureFromGraph_sel)
  show ?thesis
  proof (cases "policy mflag")
    case none
    then show ?thesis using N
      by (simp add: edge_begin_def acquire_node_def acquire_def shouldLock_def
          policy_records_def claim_all_empty raw_neighbor_begin_load structureFromGraph_sel fg_size_def)
  next
    case checkRace
    then show ?thesis using N free
      by (simp add: edge_begin_def acquire_node_def acquire_def shouldLock_def doAcquire_free
          policy_records_def claim_all_single raw_neighbor_begin_load structureFromGraph_sel fg_size_def)
  next
    case checkRaceAndNeighbors
    have a: "doAcquire ctx N own = Inr (own(N \<mapsto> ctx))"
      using free checkRaceAndNeighbors by (simp add: policy_records_def doAcquire_free)
    have "\<forall>l \<in> set (neighbors g N).
            l < length (nodeData ?G) \<and> ((own(N \<mapsto> ctx)) l = None \<or> (own(N \<mapsto> ctx)) l = Some ctx)"
      using valid free checkRaceAndNeighbors N
      by (auto simp: structureFromGraph_sel fg_size_def policy_records_def)
    then have "\<forall>l \<in> set (drop ?b (take ?e (edgeDst ?G))).
            l < length (nodeData ?G) \<and> ((own(N \<mapsto> ctx)) l = None \<or> (own(N \<mapsto> ctx)) l = Some ctx)"
      unfolding sl .
    then have "acquire_neighbors ?G ctx mflag ?b ?e (own(N \<mapsto> ctx))
          = Inr (claim_all ctx (set (neighbors g N)) (own(N \<mapsto> ctx)))"
      using acquire_neighbors_total [OF _ concat_take_Suc_le e, where own = "own(N \<mapsto> ctx)"
          and ctx = ctx and mflag = mflag]
        checkRaceAndNeighbors sl by simp
    then show ?thesis
      using N a checkRaceAndNeighbors
      by (simp add: edge_begin_def acquire_node_def acquire_def shouldLock_def
          policy_records_def claim_all_insert raw_neighbor_begin_load raw_neighbor_end_load
          structureFromGraph_sel fg_size_def)
  qed
qed

text \<open>
  Claim C7. For a node \<open>N\<close> of a loaded graph, \<open>edge_begin(N, mflag)\<close> claims
  for the calling context exactly the records the policy names: none under \<open>none\<close>,
  the record of \<open>N\<close> alone under \<open>checkRace\<close>, and the records of \<open>N\<close> and of
  every adjacent node under \<open>checkRaceAndNeighbors\<close>; the record of a node other than
  \<open>N\<close> changes hands only under \<open>checkRaceAndNeighbors\<close> and only when the node is
  adjacent to \<open>N\<close>. When the destinations are nodes of the graph and the records asked
  for are free or already held by the context, the call succeeds with these claims.
\<close>

theorem edge_begin_acquires:
  assumes "N < fg_size graph"
  shows "(\<forall>b own'. edge_begin (structureFromGraph d graph) ctx N mflag own = Inr (b, own') \<longrightarrow>
            own' = claim_all ctx (policy_records (policy mflag) N (neighbors graph N)) own
          \<and> (policy mflag = none \<longrightarrow> own' = own)
          \<and> (policy mflag = checkRace \<longrightarrow> own' = own(N \<mapsto> ctx))
          \<and> (\<forall>l. l \<noteq> N \<and> own' l \<noteq> own l \<longrightarrow>
                 policy mflag = checkRaceAndNeighbors \<and> l \<in> set (neighbors graph N)))
       \<and> ((\<forall>m \<in> set (neighbors graph N). m < fg_size graph)
          \<and> (\<forall>l \<in> policy_records (policy mflag) N (neighbors graph N).
                 own l = None \<or> own l = Some ctx)
          \<longrightarrow> (\<exists>b. edge_begin (structureFromGraph d graph) ctx N mflag own
                 = Inr (b, claim_all ctx (policy_records (policy mflag) N (neighbors graph N)) own)))"
proof -
  have N: "N < length graph"
    using assms by (simp add: fg_size_def)
  let ?own' = "claim_all ctx (policy_records (policy mflag) N (neighbors graph N)) own"
  have frame: "(policy mflag = none \<longrightarrow> ?own' = own)
          \<and> (policy mflag = checkRace \<longrightarrow> ?own' = own(N \<mapsto> ctx))
          \<and> (\<forall>l. l \<noteq> N \<and> ?own' l \<noteq> own l \<longrightarrow>
                 policy mflag = checkRaceAndNeighbors \<and> l \<in> set (neighbors graph N))"
    by (cases "policy mflag") (auto simp: policy_records_def claim_all_def fun_eq_iff)
  have one: "\<forall>b own'. edge_begin (structureFromGraph d graph) ctx N mflag own = Inr (b, own') \<longrightarrow>
            own' = ?own'
          \<and> (policy mflag = none \<longrightarrow> own' = own)
          \<and> (policy mflag = checkRace \<longrightarrow> own' = own(N \<mapsto> ctx))
          \<and> (\<forall>l. l \<noteq> N \<and> own' l \<noteq> own l \<longrightarrow>
                 policy mflag = checkRaceAndNeighbors \<and> l \<in> set (neighbors graph N))"
  proof (intro allI impI)
    fix b own'
    assume "edge_begin (structureFromGraph d graph) ctx N mflag own = Inr (b, own')"
    then have "own' = ?own'" by (rule edge_begin_load_frame [OF N])
    then show "own' = ?own'
          \<and> (policy mflag = none \<longrightarrow> own' = own)
          \<and> (policy mflag = checkRace \<longrightarrow> own' = own(N \<mapsto> ctx))
          \<and> (\<forall>l. l \<noteq> N \<and> own' l \<noteq> own l \<longrightarrow>
                 policy mflag = checkRaceAndNeighbors \<and> l \<in> set (neighbors graph N))"
      using frame by simp
  qed
  have two: "(\<forall>m \<in> set (neighbors graph N). m < fg_size graph)
          \<and> (\<forall>l \<in> policy_records (policy mflag) N (neighbors graph N).
                 own l = None \<or> own l = Some ctx)
          \<longrightarrow> (\<exists>b. edge_begin (structureFromGraph d graph) ctx N mflag own = Inr (b, ?own'))"
  proof (intro impI, elim conjE)
    assume v: "\<forall>m \<in> set (neighbors graph N). m < fg_size graph"
      and f: "\<forall>l \<in> policy_records (policy mflag) N (neighbors graph N).
                 own l = None \<or> own l = Some ctx"
    from v have v': "\<forall>m \<in> set (neighbors graph N). m < length graph"
      by (simp add: fg_size_def)
    show "\<exists>b. edge_begin (structureFromGraph d graph) ctx N mflag own = Inr (b, ?own')"
      using edge_begin_load_total [OF N v' f, of d] by blast
  qed
  show ?thesis using one two by (rule conjI)
qed

lemma scenario_valid:
  "(0::nat) < fg_size scenario_graph" "neighbors scenario_graph 0 = [1, 2]"
  "\<forall>m \<in> set (neighbors scenario_graph 0). m < fg_size scenario_graph"
  by (simp_all add: fg_size_def neighbors_def scenario_graph_def)

theorem edge_begin_acquires_witness:
  "(0::nat) < fg_size scenario_graph
   \<and> fg_size scenario_graph = 4 \<and> neighbors scenario_graph 0 = [1, 2]
   \<and> (\<exists>b. edge_begin (structureFromGraph () scenario_graph) 7 0
            \<lparr>policy = checkRace, writeIntent = False\<rparr> Map.empty = Inr (b, [0 \<mapsto> 7]))
   \<and> (\<exists>b. edge_begin (structureFromGraph () scenario_graph) 7 0
            \<lparr>policy = none, writeIntent = False\<rparr> Map.empty = Inr (b, Map.empty))
   \<and> (\<exists>b. edge_begin (structureFromGraph () scenario_graph) 7 0
            \<lparr>policy = checkRaceAndNeighbors, writeIntent = False\<rparr> Map.empty
          = Inr (b, [0 \<mapsto> 7, 1 \<mapsto> 7, 2 \<mapsto> 7]))"
proof -
  have cr: "claim_all 7 (policy_records checkRace 0 [1, 2]) Map.empty = [0 \<mapsto> 7]"
    and no: "claim_all 7 (policy_records none 0 [1, 2]) Map.empty = Map.empty"
    and al: "claim_all 7 (policy_records checkRaceAndNeighbors 0 [1, 2]) Map.empty
             = [0 \<mapsto> 7, 1 \<mapsto> 7, 2 \<mapsto> 7]"
    by (auto simp: claim_all_def policy_records_def fun_eq_iff)
  have sz: "fg_size scenario_graph = 4"
    by (simp add: fg_size_def scenario_graph_def)
  show ?thesis
    using scenario_valid sz cr no al
      edge_begin_acquires [OF scenario_valid(1), of "()" 7
        "\<lparr>policy = checkRace, writeIntent = False\<rparr>" Map.empty, THEN conjunct2]
      edge_begin_acquires [OF scenario_valid(1), of "()" 7
        "\<lparr>policy = none, writeIntent = False\<rparr>" Map.empty, THEN conjunct2]
      edge_begin_acquires [OF scenario_valid(1), of "()" 7
        "\<lparr>policy = checkRaceAndNeighbors, writeIntent = False\<rparr>" Map.empty, THEN conjunct2]
    by simp
qed

text \<open>
  Claim C9. The scenario graph loaded into the flat compressed-row layout has size 4 and 4
  edges; the edges of node 0 are the positions 0 and 1, with destinations \<open>[1, 2]\<close> and
  payloads \<open>[5, 1]\<close>; after sorting node 0's edges by payload in ascending order the
  same positions hold the destinations \<open>[2, 1]\<close> and the payloads \<open>[1, 5]\<close>. This
  holds under every policy, for a context that starts with no record claimed by anybody.
  In general, sorting the edges of a node by payload with any comparator leaves the node's
  edge range where it is and permutes its (destination, payload) pairs, so that every
  destination keeps its payload; on a loaded graph the sort of a node's edges succeeds.
\<close>

theorem scenario_and_sort_pairing:
  "size (structureFromGraph d scenario_graph) = 4
   \<and> sizeEdges (structureFromGraph d scenario_graph) = 4
   \<and> (\<exists>own1. out_edges (structureFromGraph d scenario_graph) ctx 0 mflag Map.empty
               = Inr ([0, 1], own1))
   \<and> collect (getEdgeDst (structureFromGraph d scenario_graph)) [0, 1] = Inr [1, 2]
   \<and> collect (\<lambda>ni. getEdgeData (structureFromGraph d scenario_graph) ni mflag) [0, 1]
       = Inr [5, 1]
   \<and> (\<exists>own1 own2.
         sortEdgesByEdgeData (structureFromGraph d scenario_graph) ctx 0 (<) mflag Map.empty
           = Inr (sorted_scenario d, own1)
         \<and> out_edges (sorted_scenario d) ctx 0 mflag own1 = Inr ([0, 1], own2))
   \<and> collect (getEdgeDst (sorted_scenario d)) [0, 1] = Inr [2, 1]
   \<and> collect (\<lambda>ni. getEdgeData (sorted_scenario d) ni mflag) [0, 1] = Inr [1, 5]
   \<and> (sortEdgesByEdgeData G c N cmp f own = Inr (G', own') \<longrightarrow>
         raw_neighbor_begin G' N = raw_neighbor_begin G N
       \<and> raw_neighbor_end G' N = raw_neighbor_end G N
       \<and> (\<exists>b e ps ps'. raw_neighbor_begin G N = Inr b \<and> raw_neighbor_end G N = Inr e \<and> b \<le> e
             \<and> collect (edge_pair G) [b..<e] = Inr ps
             \<and> collect (edge_pair G') [b..<e] = Inr ps' \<and> mset ps' = mset ps))
   \<and> (M < fg_size graph \<longrightarrow>
         (\<exists>G'. sortEdgesByEdgeData (structureFromGraph d' graph) c M cmp
                  \<lparr>policy = none, writeIntent = w\<rparr> own = Inr (G', own)))"
proof -
  obtain own1 where s: "sortEdgesByEdgeData (structureFromGraph d scenario_graph) ctx 0 (<) mflag Map.empty
      = Inr (sorted_scenario d, own1)" and o: "own1 \<in> {Map.empty, [0 \<mapsto> ctx]}"
    using scenario_sort [of d ctx mflag] by blast
  obtain own2 where "out_edges (sorted_scenario d) ctx 0 mflag own1 = Inr ([0, 1], own2)"
    using sorted_scenario_out_edges [OF o, of d mflag] by blast
  with s have sorted: "\<exists>own1 own2.
         sortEdgesByEdgeData (structureFromGraph d scenario_graph) ctx 0 (<) mflag Map.empty
           = Inr (sorted_scenario d, own1)
         \<and> out_edges (sorted_scenario d) ctx 0 mflag own1 = Inr ([0, 1], own2)"
    by blast
  have sz: "size (structureFromGraph d scenario_graph) = 4"
    "sizeEdges (structureFromGraph d scenario_graph) = 4"
    by (simp_all add: size_def sizeEdges_def scenario_load)
  have gen: "sortEdgesByEdgeData G c N cmp f own = Inr (G', own') \<longrightarrow>
         raw_neighbor_begin G' N = raw_neighbor_begin G N
       \<and> raw_neighbor_end G' N = raw_neighbor_end G N
       \<and> (\<exists>b e ps ps'. raw_neighbor_begin G N = Inr b \<and> raw_neighbor_end G N = Inr e \<and> b \<le> e
             \<and> collect (edge_pair G) [b..<e] = Inr ps
             \<and> collect (edge_pair G') [b..<e] = Inr ps' \<and> mset ps' = mset ps)"
    using sortEdgesByEdgeData_pairs [of G c N cmp f own G' own'] by blast
  have ex: "M < fg_size graph \<longrightarrow>
         (\<exists>G'. sortEdgesByEdgeData (structureFromGraph d' graph) c M cmp
                  \<lparr>policy = none, writeIntent = w\<rparr> own = Inr (G', own))"
    using sortEdgesByEdgeData_none_load [of M graph d' c cmp w own] by (simp add: fg_size_def)
  show ?thesis
    by (intro conjI sz scenario_out_edges_any scenario_reads sorted gen ex)
qed

theorem scenario_and_sort_pairing_witness:
  "sortEdgesByEdgeData (structureFromGraph () scenario_graph) 7 0 (<)
     \<lparr>policy = checkRace, writeIntent = False\<rparr> Map.empty = Inr (sorted_scenario (), [0 \<mapsto> 7])
   \<and> (\<exists>b e ps ps'. raw_neighbor_begin (structureFromGraph () scenario_graph) 0 = Inr b
         \<and> raw_neighbor_end (structureFromGraph () scenario_graph) 0 = Inr e \<and> b \<le> e
         \<and> collect (edge_pair (structureFromGraph () scenario_graph)) [b..<e] = Inr ps
         \<and> collect (edge_pair (sorted_scenario ())) [b..<e] = Inr ps' \<and> mset ps' = mset ps)
   \<and> (0::nat) < fg_size scenario_graph
   \<and> (\<exists>G'. sortEdgesByEdgeData (structureFromGraph () scenario_graph) 7 0 (<)
              \<lparr>policy = none, writeIntent = False\<rparr> Map.empty = Inr (G', Map.empty))"
proof -
  have run: "sortEdgesByEdgeData (structureFromGraph () scenario_graph) 7 0 (<)
     \<lparr>policy = checkRace, writeIntent = False\<rparr> Map.empty = Inr (sorted_scenario (), [0 \<mapsto> 7])"
    by (simp add: scenario_load sortEdgesByEdgeData_def acquire_node_def acquire_def
      doAcquire_def raw_neighbor_begin_def raw_neighbor_end_def at_def sort_range_def
      std_sort_def EdgeSortCompWrapper_def sorted_scenario_def)
  have h: "(0::nat) < fg_size scenario_graph"
    by (simp add: fg_size_def scenario_graph_def)
  note inst = scenario_and_sort_pairing [of "()" 7 "\<lparr>policy = checkRace, writeIntent = False\<rparr>"
      "structureFromGraph () scenario_graph" 7 0 "(<)" "\<lparr>policy = checkRace, writeIntent = False\<rparr>"
      Map.empty "sorted_scenario ()" "[0 \<mapsto> 7]" 0 scenario_graph "()" False]
  show ?thesis
    using run h inst by simp
qed


section \<open>Construction of the graph with in-edges\<close>

text \<open>
  Claim C8. Building the graph with in-edges from a forward and a transposed structural
  graph ends with a fatal error, and no graph is laid out, whenever the two disagree on the
  number of nodes or on the number of edges; when both counts agree the out-edge arrays are
  laid out from the forward graph and the in-edge arrays from the transposed one.
\<close>

theorem structureFromGraph_transpose_mismatch:
  "(fg_size graph \<noteq> fg_size tgraph \<or> fg_sizeEdges graph \<noteq> fg_sizeEdges tgraph
      \<longrightarrow> (\<exists>msg. structureFromGraph_transpose d graph tgraph = Inl (Fatal msg)))
   \<and> (fg_size graph = fg_size tgraph \<and> fg_sizeEdges graph = fg_sizeEdges tgraph
      \<longrightarrow> structureFromGraph_transpose d graph tgraph
          = Inr \<lparr> super = structureFromGraph d graph, inEdges = initialize_transpose tgraph \<rparr>)"
  by (simp add: structureFromGraph_transpose_def GALOIS_ERROR_def Let_def)

theorem structureFromGraph_transpose_mismatch_witness:
  "fg_size scenario_graph \<noteq> fg_size short_transpose
   \<and> (\<exists>msg. structureFromGraph_transpose () scenario_graph short_transpose = Inl (Fatal msg))
   \<and> fg_size scenario_graph = fg_size scenario_transpose
   \<and> fg_sizeEdges scenario_graph = fg_sizeEdges scenario_transpose
   \<and> structureFromGraph_transpose () scenario_graph scenario_transpose
       = Inr \<lparr> super = structureFromGraph () scenario_graph,
               inEdges = initialize_transpose scenario_transpose \<rparr>"
proof -
  have a: "fg_size scenario_graph \<noteq> fg_size short_transpose"
    by (simp add: fg_size_def scenario_graph_def short_transpose_def)
  have b: "fg_size scenario_graph = fg_size scenario_transpose"
    "fg_sizeEdges scenario_graph = fg_sizeEdges scenario_transpose"
    by (simp_all add: fg_size_def fg_sizeEdges_def scenario_graph_def scenario_transpose_def)
  show ?thesis
    using a b structureFromGraph_transpose_mismatch [of scenario_graph short_transpose "()"]
      structureFromGraph_transpose_mismatch [of scenario_graph scenario_transpose "()"]
    by simp
qed


section \<open>The race for a lockable\<close>

lemma race_owned:
  "owner s l \<noteq> None \<Longrightarrow> race cs l s = (replicate (length cs) False, s)"
  by (induction cs) (auto simp: tryMappingTo_def CASowner_def)

lemma race_free:
  "owner s l = None \<Longrightarrow>
   race (ni # cs) l s = (True # replicate (length cs) False, s\<lparr>owner := (owner s)(l \<mapsto> ni)\<rparr>)"
  by (simp add: tryMappingTo_def CASowner_def race_owned)

text \<open>
  Claim C2. When the records \<open>cs\<close>, one at least, race \<open>tryMappingTo\<close> on a
  lockable that nobody owns, in whatever order their compare-and-swaps take effect, exactly
  one attempt succeeds and all the others fail, and the lockable is then owned by the record
  that came first. From any state at most one attempt succeeds. The owner slot holds one
  record or none, so that a lockable never has two owners.
\<close>

theorem tryMappingTo_race:
  "(owner s l = None \<and> cs \<noteq> [] \<longrightarrow>
      length (filter (\<lambda>won. won) (fst (race cs l s))) = 1
    \<and> length (filter (\<lambda>won. \<not> won) (fst (race cs l s))) = length cs - 1
    \<and> owner (snd (race cs l s)) l = Some (hd cs))
   \<and> length (filter (\<lambda>won. won) (fst (race cs l s))) \<le> 1
   \<and> length (fst (race cs l s)) = length cs"
proof (cases "owner s l")
  case None
  show ?thesis
  proof (cases cs)
    case Nil
    then show ?thesis by simp
  next
    case (Cons ni cs')
    then show ?thesis using None race_free [OF None, of ni cs'] by (simp del: race.simps)
  qed
next
  case (Some a)
  then show ?thesis by (simp add: race_owned)
qed

theorem tryMappingTo_race_witness:
  "owner empty_nhood 5 = None \<and> [10, 11, 12 :: nat] \<noteq> []
   \<and> fst (race [10, 11, 12] 5 empty_nhood) = [True, False, False]
   \<and> length (filter (\<lambda>won. won) (fst (race [10, 11, 12] 5 empty_nhood))) = 1
   \<and> length (filter (\<lambda>won. \<not> won) (fst (race [10, 11, 12] 5 empty_nhood))) = 2
   \<and> owner (snd (race [10, 11, 12] 5 empty_nhood)) 5 = Some 10"
proof -
  have h: "owner empty_nhood 5 = None" by (simp add: empty_nhood_def)
  have r: "fst (race [10, 11, 12] 5 empty_nhood) = [True, False, False]"
    by (simp add: empty_nhood_def tryMappingTo_def CASowner_def)
  show ?thesis
    using h r tryMappingTo_race [of empty_nhood 5 "[10, 11, 12]"] by simp
qed


section \<open>The invariant of the pointer-based manager\<close>

lemma ptr_inv_update:
  assumes inv: "ptr_inv c"
    and st: "alloc_ok s'" "bound_ok s'" "collected_ok s'"
    and own: "place_ok s' pc'"
    and others: "\<And>t'. t' \<noteq> t \<Longrightarrow> place_ok s' (pcs c t')"
    and cand: "\<And>a t'. holds pc' = Some a \<Longrightarrow> t' \<noteq> t \<Longrightarrow> holds (pcs c t') \<noteq> Some a"
    and log: "\<And>x. x \<in> set rs' \<Longrightarrow> owner s' (fst x) = Some (snd x)"
  shows "ptr_inv (c\<lparr>shared := s', pcs := (pcs c)(t := pc'), returned := rs'\<rparr>)"
proof -
  have d: "\<And>t1 t2 a. t1 \<noteq> t2 \<Longrightarrow> holds (pcs c t1) = Some a \<Longrightarrow> holds (pcs c t2) \<noteq> Some a"
    using inv by (simp add: ptr_inv_def)
  have "\<forall>t1 t2 a. t1 \<noteq> t2 \<longrightarrow> holds (((pcs c)(t := pc')) t1) = Some a
          \<longrightarrow> holds (((pcs c)(t := pc')) t2) \<noteq> Some a"
  proof (intro allI impI)
    fix t1 t2 a
    assume ne: "t1 \<noteq> t2" and h: "holds (((pcs c)(t := pc')) t1) = Some a"
    show "holds (((pcs c)(t := pc')) t2) \<noteq> Some a"
    proof (cases "t1 = t")
      case True
      then show ?thesis using ne h cand [of a t2] by simp
    next
      case False
      show ?thesis
      proof (cases "t2 = t")
        case True
        then show ?thesis using False h cand [of a t1] by auto
      next
        case t2: False
        then show ?thesis using False ne h d [of t1 t2 a] by simp
      qed
    qed
  qed
  moreover have "\<forall>t'. place_ok s' (((pcs c)(t := pc')) t')"
    using own others by simp
  ultimately show ?thesis
    using st log by (simp add: ptr_inv_def)
qed

lemma ptr_inv_place: "ptr_inv c \<Longrightarrow> place_ok (shared c) (pcs c t)"
  by (simp add: ptr_inv_def)

lemma ptr_inv_distinct:
  "ptr_inv c \<Longrightarrow> t \<noteq> t' \<Longrightarrow> holds (pcs c t) = Some a \<Longrightarrow> holds (pcs c t') \<noteq> Some a"
  by (simp add: ptr_inv_def)

lemma ptr_inv_log: "ptr_inv c \<Longrightarrow> (l, r) \<in> set (returned c) \<Longrightarrow> owner (shared c) l = Some r"
  by (auto simp: ptr_inv_def)

lemma ptr_inv_state:
  "ptr_inv c \<Longrightarrow> alloc_ok (shared c)" "ptr_inv c \<Longrightarrow> bound_ok (shared c)"
  "ptr_inv c \<Longrightarrow> collected_ok (shared c)"
  by (simp_all add: ptr_inv_def)

lemma ptr_inv_Call: 
  assumes "ptr_inv c" shows "ptr_inv (ptr_exec (Call t l) c)"
proof (cases "pcs c t = Idle")
  case True
  have "ptr_inv (c\<lparr>shared := shared c, pcs := (pcs c)(t := AtCheck l), returned := returned c\<rparr>)"
    using assms by (intro ptr_inv_update) (auto simp: ptr_inv_state ptr_inv_place ptr_inv_log)
  then show ?thesis using True by simp
next
  case False
  then show ?thesis using assms by simp
qed

lemma ptr_inv_AtCheck:
  assumes "ptr_inv c" "pcs c t = AtCheck l"
  shows "ptr_inv (ptr_exec (Step t) c)"
proof -
  let ?pc = "if owner (shared c) l = None then AtCreate l else AtReturn l"
  have "ptr_inv (c\<lparr>shared := shared c, pcs := (pcs c)(t := ?pc), returned := returned c\<rparr>)"
    using assms(1) by (intro ptr_inv_update) (auto simp: ptr_inv_state ptr_inv_place ptr_inv_log split: if_splits)
  then show ?thesis using assms(2) by (simp add: getOwner_def)
qed

lemma ptr_inv_AtReturn:
  assumes "ptr_inv c" "pcs c t = AtReturn l"
  shows "ptr_inv (ptr_exec (Step t) c)"
proof -
  obtain r where r: "owner (shared c) l = Some r"
    using ptr_inv_place [OF assms(1), of t] assms(2) by auto
  have "ptr_inv (c\<lparr>shared := shared c, pcs := (pcs c)(t := Idle), returned := returned c @ [(l, r)]\<rparr>)"
    using assms(1) r by (intro ptr_inv_update) (auto simp: ptr_inv_state ptr_inv_place ptr_inv_log)
  then show ?thesis using assms(2) r by (simp add: getOwner_def)
qed

lemma ptr_inv_Idle:
  assumes "ptr_inv c" "pcs c t = Idle \<or> pcs c t = Aborted"
  shows "ptr_inv (ptr_exec (Step t) c)"
proof -
  have "ptr_exec (Step t) c = c"
    using assms(2) by (auto simp: fun_upd_idem)
  then show ?thesis using assms(1) by simp
qed

lemma create_props:
  assumes "alloc_ok s" "create l s = (ni, s')"
  shows "items s ni = None" "items s' = (items s)(ni \<mapsto> l)" "owner s' = owner s"
    "allNItems s' = allNItems s" "alloc_ok s'"
proof -
  show "items s ni = None" "items s' = (items s)(ni \<mapsto> l)" "owner s' = owner s"
    "allNItems s' = allNItems s"
    using assms
    by (auto simp: create_def allocate_def construct_def alloc_ok_def split: list.splits)
  show "alloc_ok s'"
    using assms
    by (auto simp: create_def allocate_def construct_def alloc_ok_def less_Suc_eq
        split: list.splits if_splits)
qed

lemma holds_live:
  "place_ok s pc \<Longrightarrow> bound_ok s \<Longrightarrow> holds pc = Some a \<Longrightarrow> \<exists>l. items s a = Some l"
  by (cases pc) (auto simp: bound_ok_def)

lemma place_ok_create:
  assumes "place_ok s pc" "items s ni = None" "bound_ok s"
    and "items s' = (items s)(ni \<mapsto> l)" "owner s' = owner s" "allNItems s' = allNItems s"
  shows "place_ok s' pc"
  using assms by (cases pc) (auto simp: bound_ok_def)

lemma ptr_inv_AtCreate:
  assumes inv: "ptr_inv c" and pc: "pcs c t = AtCreate l"
  shows "ptr_inv (ptr_exec (Step t) c)"
proof -
  let ?s = "shared c"
  obtain ni s' where cr: "create l ?s = (ni, s')" by (cases "create l ?s")
  note p = create_props [OF ptr_inv_state(1) [OF inv] cr]
  have b: "bound_ok ?s" and co: "collected_ok ?s" using inv by (simp_all add: ptr_inv_state)
  have unowned: "\<And>l'. owner ?s l' \<noteq> Some ni"
    using b p(1) by (auto simp: bound_ok_def)
  have "ptr_inv (c\<lparr>shared := s', pcs := (pcs c)(t := AtTryMap l ni), returned := returned c\<rparr>)"
  proof (intro ptr_inv_update [OF inv])
    show "alloc_ok s'" by (rule p(5))
    show "bound_ok s'" using b p(1) by (auto simp: bound_ok_def p(2,3))
    show "collected_ok s'" using co by (simp add: collected_ok_def p(3,4))
    show "place_ok s' (AtTryMap l ni)" using unowned by (simp add: p(2,3))
    show "place_ok s' (pcs c t')" if "t' \<noteq> t" for t'
      using place_ok_create [OF ptr_inv_place [OF inv] p(1) b p(2,3,4)] .
    show "holds (pcs c t') \<noteq> Some a" if "holds (AtTryMap l ni) = Some a" "t' \<noteq> t" for a t'
      using that holds_live [OF ptr_inv_place [OF inv, of t'] b, of a] p(1) by auto
    show "owner s' (fst x) = Some (snd x)" if "x \<in> set (returned c)" for x
      using that ptr_inv_log [OF inv, of "fst x" "snd x"] by (simp add: p(3))
  qed
  then show ?thesis using pc cr by simp
qed

lemma place_ok_bind:
  assumes "place_ok s pc" "holds pc \<noteq> Some ni" "owner s l = None"
    and "owner s' = (owner s)(l \<mapsto> ni)" "items s' = items s" "allNItems s' = allNItems s"
  shows "place_ok s' pc"
  using assms by (cases pc) auto

lemma ptr_inv_AtTryMap:
  assumes inv: "ptr_inv c" and pc: "pcs c t = AtTryMap l ni"
  shows "ptr_inv (ptr_exec (Step t) c)"
proof -
  let ?s = "shared c"
  have a: "alloc_ok ?s" and b: "bound_ok ?s" and co: "collected_ok ?s"
    using inv by (simp_all add: ptr_inv_state)
  have mine: "items ?s ni = Some l" "\<And>l'. owner ?s l' \<noteq> Some ni"
    using ptr_inv_place [OF inv, of t] pc by auto
  have others: "holds (pcs c t') \<noteq> Some ni" if "t' \<noteq> t" for t'
    using ptr_inv_distinct [OF inv, of t t' ni] that pc by auto
  show ?thesis
  proof (cases "owner ?s l")
    case None
    let ?s' = "?s\<lparr>owner := (owner ?s)(l \<mapsto> ni)\<rparr>"
    have "ptr_inv (c\<lparr>shared := ?s', pcs := (pcs c)(t := AtPush l ni), returned := returned c\<rparr>)"
    proof (intro ptr_inv_update [OF inv])
      show "alloc_ok ?s'" using a by (simp add: alloc_ok_def)
      show "bound_ok ?s'" using b mine by (auto simp: bound_ok_def)
      show "collected_ok ?s'"
        unfolding collected_ok_def
      proof
        fix n assume "n \<in> set (allNItems ?s')"
        then obtain l0 where l0: "owner ?s l0 = Some n"
          using co by (auto simp: collected_ok_def)
        then have "l0 \<noteq> l" using None by auto
        then show "\<exists>l'. owner ?s' l' = Some n" using l0 by (intro exI [of _ l0]) simp
      qed
      show "place_ok ?s' (AtPush l ni)" using co mine by (auto simp: collected_ok_def)
      show "place_ok ?s' (pcs c t')" if "t' \<noteq> t" for t'
        using place_ok_bind [OF ptr_inv_place [OF inv, of t'] others [OF that] None, of ?s'] by simp
      show "holds (pcs c t') \<noteq> Some a" if "holds (AtPush l ni) = Some a" "t' \<noteq> t" for a t'
        using that others by auto
      show "owner ?s' (fst x) = Some (snd x)" if "x \<in> set (returned c)" for x
        using that ptr_inv_log [OF inv, of "fst x" "snd x"] None by auto
    qed
    then show ?thesis using pc None by (simp add: tryMappingTo_def CASowner_def)
  next
    case (Some w)
    have "ptr_inv (c\<lparr>shared := ?s, pcs := (pcs c)(t := AtDestroy l ni), returned := returned c\<rparr>)"
    proof (intro ptr_inv_update [OF inv])
      show "place_ok ?s (AtDestroy l ni)" using mine Some by simp
      show "holds (pcs c t') \<noteq> Some a" if "holds (AtDestroy l ni) = Some a" "t' \<noteq> t" for a t'
        using that others by auto
      show "owner ?s (fst x) = Some (snd x)" if "x \<in> set (returned c)" for x
        using that ptr_inv_log [OF inv, of "fst x" "snd x"] by simp
    qed (simp_all add: a b co ptr_inv_place [OF inv])
    then show ?thesis using pc Some by (simp add: tryMappingTo_def CASowner_def)
  qed
qed

lemma place_ok_push:
  assumes "place_ok s pc" "holds pc \<noteq> Some ni"
    and "owner s' = owner s" "items s' = items s" "allNItems s' = allNItems s @ [ni]"
  shows "place_ok s' pc"
  using assms by (cases pc) auto

lemma ptr_inv_AtPush:
  assumes inv: "ptr_inv c" and pc: "pcs c t = AtPush l ni"
  shows "ptr_inv (ptr_exec (Step t) c)"
proof -
  let ?s = "shared c"
  have a: "alloc_ok ?s" and b: "bound_ok ?s" and co: "collected_ok ?s"
    using inv by (simp_all add: ptr_inv_state)
  have mine: "owner ?s l = Some ni"
    using ptr_inv_place [OF inv, of t] pc by auto
  have others: "holds (pcs c t') \<noteq> Some ni" if "t' \<noteq> t" for t'
    using ptr_inv_distinct [OF inv, of t t' ni] that pc by auto
  let ?s' = "push_back ni ?s"
  have "ptr_inv (c\<lparr>shared := ?s', pcs := (pcs c)(t := AtReturn l), returned := returned c\<rparr>)"
  proof (intro ptr_inv_update [OF inv])
    show "alloc_ok ?s'" using a by (simp add: alloc_ok_def push_back_def)
    show "bound_ok ?s'" using b by (simp add: bound_ok_def push_back_def)
    show "collected_ok ?s'" using co mine by (auto simp: collected_ok_def push_back_def)
    show "place_ok ?s' (AtReturn l)" using mine by (simp add: push_back_def)
    show "place_ok ?s' (pcs c t')" if "t' \<noteq> t" for t'
      using place_ok_push [OF ptr_inv_place [OF inv, of t'] others [OF that], of ?s']
      by (simp add: push_back_def)
    show "holds (pcs c t') \<noteq> Some a" if "holds (AtReturn l) = Some a" "t' \<noteq> t" for a t'
      using that by simp
    show "owner ?s' (fst x) = Some (snd x)" if "x \<in> set (returned c)" for x
      using that ptr_inv_log [OF inv, of "fst x" "snd x"] by (simp add: push_back_def)
  qed
  then show ?thesis using pc by simp
qed

lemma place_ok_destroy:
  assumes "place_ok s pc" "holds pc \<noteq> Some ni"
    and "owner s' = owner s" "items s' = (items s)(ni := None)" "allNItems s' = allNItems s"
  shows "place_ok s' pc"
  using assms by (cases pc) auto

lemma destroy_sel:
  "owner (destroy ni s) = owner s" "items (destroy ni s) = (items s)(ni := None)"
  "allNItems (destroy ni s) = allNItems s" "free_list (destroy ni s) = ni # free_list s"
  "fresh (destroy ni s) = fresh s"
  by (simp_all add: destroy_def deallocate_def destruct_def)

lemma ptr_inv_AtDestroy:
  assumes inv: "ptr_inv c" and pc: "pcs c t = AtDestroy l ni"
  shows "ptr_inv (ptr_exec (Step t) c)"
proof -
  let ?s = "shared c"
  have a: "alloc_ok ?s" and b: "bound_ok ?s" and co: "collected_ok ?s"
    using inv by (simp_all add: ptr_inv_state)
  have mine: "items ?s ni = Some l" "\<And>l'. owner ?s l' \<noteq> Some ni" "owner ?s l \<noteq> None"
    using ptr_inv_place [OF inv, of t] pc by auto
  have others: "holds (pcs c t') \<noteq> Some ni" if "t' \<noteq> t" for t'
    using ptr_inv_distinct [OF inv, of t t' ni] that pc by auto
  let ?s' = "destroy ni ?s"
  have "ptr_inv (c\<lparr>shared := ?s', pcs := (pcs c)(t := AtReturn l), returned := returned c\<rparr>)"
  proof (intro ptr_inv_update [OF inv])
    show "alloc_ok ?s'" using a mine(1) by (auto simp: alloc_ok_def destroy_sel)
    show "bound_ok ?s'" using b mine(2) by (auto simp: bound_ok_def destroy_sel)
    show "collected_ok ?s'" using co by (simp add: collected_ok_def destroy_sel)
    show "place_ok ?s' (AtReturn l)" using mine by (simp add: destroy_sel)
    show "place_ok ?s' (pcs c t')" if "t' \<noteq> t" for t'
      using place_ok_destroy [OF ptr_inv_place [OF inv, of t'] others [OF that], of ?s']
      by (simp add: destroy_sel)
    show "holds (pcs c t') \<noteq> Some a" if "holds (AtReturn l) = Some a" "t' \<noteq> t" for a t'
      using that by simp
    show "owner ?s' (fst x) = Some (snd x)" if "x \<in> set (returned c)" for x
      using that ptr_inv_log [OF inv, of "fst x" "snd x"] by (simp add: destroy_sel)
  qed
  then show ?thesis using pc by simp
qed

lemma ptr_inv_exec: "ptr_inv c \<Longrightarrow> ptr_inv (ptr_exec e c)"
proof (cases e)
  case (Call t l)
  assume "ptr_inv c" then show ?thesis using Call by (simp only: ptr_inv_Call)
next
  case (Step t)
  assume inv: "ptr_inv c"
  show ?thesis
    unfolding Step
  proof (cases "pcs c t")
    case Idle
    then show "ptr_inv (ptr_exec (Step t) c)" by (intro ptr_inv_Idle [OF inv]) simp
  next
    case (AtCheck l)
    then show "ptr_inv (ptr_exec (Step t) c)" by (rule ptr_inv_AtCheck [OF inv])
  next
    case (AtCreate l)
    then show "ptr_inv (ptr_exec (Step t) c)" by (rule ptr_inv_AtCreate [OF inv])
  next
    case (AtTryMap l ni)
    then show "ptr_inv (ptr_exec (Step t) c)" by (rule ptr_inv_AtTryMap [OF inv])
  next
    case (AtPush l ni)
    then show "ptr_inv (ptr_exec (Step t) c)" by (rule ptr_inv_AtPush [OF inv])
  next
    case (AtDestroy l ni)
    then show "ptr_inv (ptr_exec (Step t) c)" by (rule ptr_inv_AtDestroy [OF inv])
  next
    case (AtReturn l)
    then show "ptr_inv (ptr_exec (Step t) c)" by (rule ptr_inv_AtReturn [OF inv])
  next
    case Aborted
    then show "ptr_inv (ptr_exec (Step t) c)" by (intro ptr_inv_Idle [OF inv]) simp
  qed
qed

lemma ptr_inv_run: "ptr_inv c \<Longrightarrow> ptr_inv (ptr_run sched c)"
  unfolding ptr_run_def by (induction sched arbitrary: c) (simp_all add: ptr_inv_exec)

lemma ptr_inv_init: "ptr_inv ptr_init"
  by (simp add: ptr_inv_def ptr_init_def empty_nhood_def alloc_ok_def bound_ok_def collected_ok_def)


section \<open>The invariant of the map-based manager\<close>

lemma map_inv_unique: "map_inv c \<Longrightarrow> in_write (pcs c t) \<Longrightarrow> in_write (pcs c t') \<Longrightarrow> t = t'"
  unfolding map_inv_def by blast

lemma map_inv_assemble:
  assumes "alloc_ok s'" "mapped_ok s'" "distinct (allNItems s')"
    "\<forall>t'. map_place_ok s' (P t')" "\<forall>t'. in_write (P t') \<longrightarrow> writer s'"
    "\<forall>t1 t2. in_write (P t1) \<longrightarrow> in_write (P t2) \<longrightarrow> t1 = t2"
    "\<forall>ni \<in> set (allNItems s').
       (\<exists>l. nhoodMap s' l = Some ni) \<or> (\<exists>t' l. P t' = MInsert l ni)"
    "\<forall>x \<in> set rs'. nhoodMap s' (fst x) = Some (snd x)"
  shows "map_inv (c\<lparr>shared := s', pcs := P, returned := rs'\<rparr>)"
  unfolding map_inv_def using assms by simp

lemma map_inv_update:
  assumes inv: "map_inv c"
    and st: "alloc_ok s'" "mapped_ok s'" "distinct (allNItems s')"
    and own: "map_place_ok s' pc'"
    and others: "\<And>t'. t' \<noteq> t \<Longrightarrow> map_place_ok s' (pcs c t')"
    and w1: "in_write pc' \<Longrightarrow> writer s'"
    and w1': "\<And>t'. t' \<noteq> t \<Longrightarrow> in_write (pcs c t') \<Longrightarrow> writer s'"
    and w2: "\<And>t'. in_write pc' \<Longrightarrow> t' \<noteq> t \<Longrightarrow> \<not> in_write (pcs c t')"
    and coll: "\<And>ni. ni \<in> set (allNItems s') \<Longrightarrow>
        (\<exists>l. nhoodMap s' l = Some ni) \<or> (\<exists>l. pc' = MInsert l ni)
        \<or> (\<exists>t' l. t' \<noteq> t \<and> pcs c t' = MInsert l ni)"
    and log: "\<And>x. x \<in> set rs' \<Longrightarrow> nhoodMap s' (fst x) = Some (snd x)"
  shows "map_inv (c\<lparr>shared := s', pcs := (pcs c)(t := pc'), returned := rs'\<rparr>)"
proof (rule map_inv_assemble [OF st])
  let ?P = "(pcs c)(t := pc')"
  show "\<forall>t1 t2. in_write (?P t1) \<longrightarrow> in_write (?P t2) \<longrightarrow> t1 = t2"
  proof (intro allI impI)
    fix t1 t2 assume a: "in_write (?P t1)" "in_write (?P t2)"
    show "t1 = t2"
    proof (cases "t1 = t")
      case t1: True
      show ?thesis
      proof (cases "t2 = t")
        case True
        then show ?thesis using t1 by simp
      next
        case False
        then show ?thesis using a t1 w2 [of t2] by simp
      qed
    next
      case t1: False
      show ?thesis
      proof (cases "t2 = t")
        case True
        then show ?thesis using a t1 w2 [of t1] by simp
      next
        case False
        then show ?thesis using a t1 map_inv_unique [OF inv, of t1 t2] by simp
      qed
    qed
  qed
  show "\<forall>t'. map_place_ok s' (?P t')"
    using own others by simp
  show "\<forall>t'. in_write (?P t') \<longrightarrow> writer s'"
  proof (intro allI impI)
    fix t' assume "in_write (?P t')"
    then show "writer s'" using w1 w1' [of t'] by (cases "t' = t") simp_all
  qed
  show "\<forall>ni \<in> set (allNItems s').
     (\<exists>l. nhoodMap s' l = Some ni) \<or> (\<exists>t' l. ?P t' = MInsert l ni)"
  proof
    fix ni assume "ni \<in> set (allNItems s')"
    from coll [OF this] show "(\<exists>l. nhoodMap s' l = Some ni) \<or> (\<exists>t' l. ?P t' = MInsert l ni)"
    proof (elim disjE exE conjE)
      fix l assume "nhoodMap s' l = Some ni"
      then show ?thesis by blast
    next
      fix l assume "pc' = MInsert l ni"
      then have "?P t = MInsert l ni" by simp
      then show ?thesis by blast
    next
      fix t' l assume "t' \<noteq> t" "pcs c t' = MInsert l ni"
      then have "?P t' = MInsert l ni" by simp
      then show ?thesis by blast
    qed
  qed
  show "\<forall>x \<in> set rs'. nhoodMap s' (fst x) = Some (snd x)"
    using log by blast
qed

lemma map_inv_place: "map_inv c \<Longrightarrow> map_place_ok (shared c) (pcs c t)"
  by (simp add: map_inv_def)

lemma map_inv_state:
  "map_inv c \<Longrightarrow> alloc_ok (shared c)" "map_inv c \<Longrightarrow> mapped_ok (shared c)"
  "map_inv c \<Longrightarrow> distinct (allNItems (shared c))"
  by (simp_all add: map_inv_def)

lemma map_inv_writer: "map_inv c \<Longrightarrow> in_write (pcs c t) \<Longrightarrow> writer (shared c)"
  by (auto simp: map_inv_def)

lemma map_inv_collected:
  "map_inv c \<Longrightarrow> ni \<in> set (allNItems (shared c)) \<Longrightarrow>
   (\<exists>l. nhoodMap (shared c) l = Some ni) \<or> (\<exists>t l. pcs c t = MInsert l ni)"
  by (simp add: map_inv_def)

lemma map_inv_log:
  "map_inv c \<Longrightarrow> x \<in> set (returned c) \<Longrightarrow> nhoodMap (shared c) (fst x) = Some (snd x)"
  by (simp add: map_inv_def)

text \<open>Steps that change nothing the places depend on: the lock, or nothing at all.\<close>

lemma map_place_ok_cong:
  "nhoodMap s' = nhoodMap s \<Longrightarrow> items s' = items s \<Longrightarrow> allNItems s' = allNItems s \<Longrightarrow>
   map_place_ok s' pc = map_place_ok s pc"
  by (cases pc) simp_all

lemma map_inv_quiet:
  assumes inv: "map_inv c"
    and same: "nhoodMap s' = nhoodMap (shared c)" "items s' = items (shared c)"
      "allNItems s' = allNItems (shared c)" "free_list s' = free_list (shared c)"
      "fresh s' = fresh (shared c)"
    and own: "map_place_ok (shared c) pc'"
    and w1: "in_write pc' \<Longrightarrow> writer s'"
    and w1': "\<And>t'. t' \<noteq> t \<Longrightarrow> in_write (pcs c t') \<Longrightarrow> writer s'"
    and w2: "\<And>t'. in_write pc' \<Longrightarrow> t' \<noteq> t \<Longrightarrow> \<not> in_write (pcs c t')"
    and ins: "\<And>l ni. pcs c t = MInsert l ni \<Longrightarrow> pc' = MInsert l ni"
    and log: "\<And>x. x \<in> set rs' \<Longrightarrow> nhoodMap (shared c) (fst x) = Some (snd x)"
  shows "map_inv (c\<lparr>shared := s', pcs := (pcs c)(t := pc'), returned := rs'\<rparr>)"
proof (intro map_inv_update [OF inv])
  show "alloc_ok s'" using map_inv_state(1) [OF inv] by (simp add: alloc_ok_def same)
  show "mapped_ok s'" using map_inv_state(2) [OF inv] by (simp add: mapped_ok_def same)
  show "distinct (allNItems s')" using map_inv_state(3) [OF inv] by (simp add: same)
  show "map_place_ok s' pc'" using own by (simp add: map_place_ok_cong [OF same(1-3)])
  show "map_place_ok s' (pcs c t')" for t'
    using map_inv_place [OF inv, of t'] by (simp add: map_place_ok_cong [OF same(1-3)])
  show "in_write pc' \<Longrightarrow> writer s'" by (rule w1)
  show "\<And>t'. t' \<noteq> t \<Longrightarrow> in_write (pcs c t') \<Longrightarrow> writer s'" by (rule w1')
  show "\<And>t'. in_write pc' \<Longrightarrow> t' \<noteq> t \<Longrightarrow> \<not> in_write (pcs c t')" by (rule w2)
  show "(\<exists>l. nhoodMap s' l = Some ni) \<or> (\<exists>l. pc' = MInsert l ni)
        \<or> (\<exists>t' l. t' \<noteq> t \<and> pcs c t' = MInsert l ni)" if "ni \<in> set (allNItems s')" for ni
  proof -
    from that have "ni \<in> set (allNItems (shared c))" by (simp add: same)
    from map_inv_collected [OF inv this] show ?thesis
    proof (elim disjE exE)
      fix t' l assume p: "pcs c t' = MInsert l ni"
      show ?thesis
      proof (cases "t' = t")
        case True
        then show ?thesis using ins p by blast
      next
        case False
        then show ?thesis using p by blast
      qed
    qed (auto simp: same)
  qed
  show "\<And>x. x \<in> set rs' \<Longrightarrow> nhoodMap s' (fst x) = Some (snd x)"
    using log by (simp add: same)
qed

lemma alone_in_write:
  assumes "map_inv c" "in_write (pcs c t)" "t' \<noteq> t"
  shows "\<not> in_write (pcs c t')"
  using map_inv_unique [OF assms(1,2), of t'] assms(3) by auto

lemma map_inv_outside:
  assumes inv: "map_inv c"
    and same: "nhoodMap s' = nhoodMap (shared c)" "items s' = items (shared c)"
      "allNItems s' = allNItems (shared c)" "free_list s' = free_list (shared c)"
      "fresh s' = fresh (shared c)" "writer s' = writer (shared c)"
    and out: "\<not> in_write (pcs c t)" "\<not> in_write pc'"
    and own: "map_place_ok (shared c) pc'"
    and log: "\<And>x. x \<in> set rs' \<Longrightarrow> nhoodMap (shared c) (fst x) = Some (snd x)"
  shows "map_inv (c\<lparr>shared := s', pcs := (pcs c)(t := pc'), returned := rs'\<rparr>)"
proof (intro map_inv_quiet [OF inv same(1-5) own])
  show "in_write pc' \<Longrightarrow> writer s'" using out by simp
  show "\<And>t'. t' \<noteq> t \<Longrightarrow> in_write (pcs c t') \<Longrightarrow> writer s'"
    using map_inv_writer [OF inv] by (simp add: same)
  show "\<And>t'. in_write pc' \<Longrightarrow> t' \<noteq> t \<Longrightarrow> \<not> in_write (pcs c t')" using out by simp
  show "\<And>l ni. pcs c t = MInsert l ni \<Longrightarrow> pc' = MInsert l ni" using out by auto
  show "\<And>x. x \<in> set rs' \<Longrightarrow> nhoodMap (shared c) (fst x) = Some (snd x)" by (rule log)
qed

lemma map_inv_outside_nolog:
  assumes inv: "map_inv c"
    and same: "nhoodMap s' = nhoodMap (shared c)" "items s' = items (shared c)"
      "allNItems s' = allNItems (shared c)" "free_list s' = free_list (shared c)"
      "fresh s' = fresh (shared c)" "writer s' = writer (shared c)"
    and out: "\<not> in_write (pcs c t)" "\<not> in_write pc'"
    and own: "map_place_ok (shared c) pc'"
  shows "map_inv (c\<lparr>shared := s', pcs := (pcs c)(t := pc'), returned := returned c\<rparr>)"
  by (rule map_inv_outside [OF inv same out own]) (rule map_inv_log [OF inv])

lemma map_inv_inside:
  assumes inv: "map_inv c"
    and same: "nhoodMap s' = nhoodMap (shared c)" "items s' = items (shared c)"
      "allNItems s' = allNItems (shared c)" "free_list s' = free_list (shared c)"
      "fresh s' = fresh (shared c)"
    and wr: "in_write (pcs c t) \<or> \<not> writer (shared c)" "in_write pc' \<longleftrightarrow> writer s'"
    and noins: "\<And>l ni. pcs c t \<noteq> MInsert l ni"
    and own: "map_place_ok (shared c) pc'"
  shows "map_inv (c\<lparr>shared := s', pcs := (pcs c)(t := pc'), returned := returned c\<rparr>)"
proof (intro map_inv_quiet [OF inv same(1-5) own])
  have alone: "\<not> in_write (pcs c t')" if "t' \<noteq> t" for t'
    using wr(1) alone_in_write [OF inv _ that] map_inv_writer [OF inv, of t'] by auto
  show "in_write pc' \<Longrightarrow> writer s'" using wr(2) by simp
  show "\<And>t'. t' \<noteq> t \<Longrightarrow> in_write (pcs c t') \<Longrightarrow> writer s'" using alone by simp
  show "\<And>t'. in_write pc' \<Longrightarrow> t' \<noteq> t \<Longrightarrow> \<not> in_write (pcs c t')" using alone by simp
  show "\<And>l ni. pcs c t = MInsert l ni \<Longrightarrow> pc' = MInsert l ni" using noins by simp
  show "\<And>x. x \<in> set (returned c) \<Longrightarrow> nhoodMap (shared c) (fst x) = Some (snd x)"
    by (rule map_inv_log [OF inv])
qed

lemma map_exec_Step:
  "map_step (pcs c t) (shared c) = (pc', s', r) \<Longrightarrow>
   map_exec (Step t) c = c\<lparr>shared := s', pcs := (pcs c)(t := pc'),
     returned := (case r of None \<Rightarrow> returned c | Some x \<Rightarrow> returned c @ [x])\<rparr>"
  by simp

lemma map_inv_Call:
  assumes inv: "map_inv c"
  shows "map_inv (map_exec (Call t l) c)"
proof (cases "pcs c t = MIdle")
  case True
  have "map_inv (c\<lparr>shared := shared c, pcs := (pcs c)(t := MReadLock l), returned := returned c\<rparr>)"
    using True by (intro map_inv_outside_nolog [OF inv]) simp_all
  then show ?thesis using True by simp
next
  case False
  then show ?thesis using inv by simp
qed

lemma map_inv_same: "map_inv c \<Longrightarrow> map_inv (c\<lparr>shared := shared c, pcs := (pcs c)(t := pcs c t), returned := returned c\<rparr>)"
  by simp

lemma map_inv_MReadLock:
  assumes inv: "map_inv c" and pc: "pcs c t = MReadLock l \<or> pcs c t = MReadLock2 l"
  shows "map_inv (map_exec (Step t) c)"
proof (cases "writer (shared c)")
  case True
  then have "map_exec (Step t) c = c"
    using pc by (auto simp: readLock_def fun_upd_idem)
  then show ?thesis using inv by simp
next
  case False
  let ?s' = "shared c\<lparr>readers := Suc (readers (shared c))\<rparr>"
  let ?pc' = "if pcs c t = MReadLock l then MFind l else MFind2 l"
  have "map_inv (c\<lparr>shared := ?s', pcs := (pcs c)(t := ?pc'), returned := returned c\<rparr>)"
    using pc map_inv_place [OF inv, of t]
    by (intro map_inv_outside_nolog [OF inv]) auto
  then show ?thesis using pc False by (auto simp: readLock_def)
qed

lemma map_inv_MFind:
  assumes inv: "map_inv c" and pc: "pcs c t = MFind l"
  shows "map_inv (map_exec (Step t) c)"
proof -
  let ?pc' = "case nhoodMap (shared c) l of None \<Rightarrow> MReadUnlockMiss l | Some ni \<Rightarrow> MReadUnlock l (Some ni)"
  have "map_inv (c\<lparr>shared := shared c, pcs := (pcs c)(t := ?pc'), returned := returned c\<rparr>)"
    using pc
    by (intro map_inv_outside_nolog [OF inv]) (auto split: option.splits)
  then show ?thesis using pc by (auto simp: map_find_def split: option.splits)
qed

lemma map_inv_MFind2:
  assumes inv: "map_inv c" and pc: "pcs c t = MFind2 l"
  shows "map_inv (map_exec (Step t) c)"
proof -
  have "map_inv (c\<lparr>shared := shared c, pcs := (pcs c)(t := MReadUnlock l (nhoodMap (shared c) l)), returned := returned c\<rparr>)"
    using pc map_inv_place [OF inv, of t]
    by (intro map_inv_outside_nolog [OF inv]) auto
  then show ?thesis using pc by (auto simp: map_find_def)
qed

lemma map_inv_MReadUnlockMiss:
  assumes inv: "map_inv c" and pc: "pcs c t = MReadUnlockMiss l"
  shows "map_inv (map_exec (Step t) c)"
proof -
  have "map_inv (c\<lparr>shared := readUnlock (shared c), pcs := (pcs c)(t := MWriteLock l), returned := returned c\<rparr>)"
    using pc
    by (intro map_inv_outside_nolog [OF inv]) (auto simp: readUnlock_def)
  then show ?thesis using pc by auto
qed

lemma map_inv_MReadUnlock:
  assumes inv: "map_inv c" and pc: "pcs c t = MReadUnlock l i"
  shows "map_inv (map_exec (Step t) c)"
proof -
  obtain r where r: "i = Some r" "nhoodMap (shared c) l = Some r"
    using pc map_inv_place [OF inv, of t] by auto
  have "map_inv (c\<lparr>shared := readUnlock (shared c), pcs := (pcs c)(t := MIdle), returned := returned c @ [(l, r)]\<rparr>)"
  proof (intro map_inv_outside [OF inv])
    fix x assume "x \<in> set (returned c @ [(l, r)])"
    then show "nhoodMap (shared c) (fst x) = Some (snd x)"
      using map_inv_log [OF inv, of x] r by auto
  qed (simp_all add: pc readUnlock_def)
  then show ?thesis using pc r by auto
qed

lemma map_inv_MWriteLock:
  assumes inv: "map_inv c" and pc: "pcs c t = MWriteLock l"
  shows "map_inv (map_exec (Step t) c)"
proof (cases "writer (shared c) \<or> readers (shared c) \<noteq> 0")
  case True
  then have "map_exec (Step t) c = c"
    using pc by (auto simp: writeLock_def fun_upd_idem)
  then show ?thesis using inv by simp
next
  case False
  have "map_inv (c\<lparr>shared := shared c\<lparr>writer := True\<rparr>, pcs := (pcs c)(t := MRecheck l), returned := returned c\<rparr>)"
    using pc False by (intro map_inv_inside [OF inv]) auto
  then show ?thesis using pc False by (auto simp: writeLock_def)
qed

lemma map_inv_MRecheck:
  assumes inv: "map_inv c" and pc: "pcs c t = MRecheck l"
  shows "map_inv (map_exec (Step t) c)"
proof -
  let ?pc' = "if nhoodMap (shared c) l = None then MCreate l else MWriteUnlock l"
  have "map_inv (c\<lparr>shared := shared c, pcs := (pcs c)(t := ?pc'), returned := returned c\<rparr>)"
    using pc map_inv_writer [OF inv, of t] by (intro map_inv_inside [OF inv]) auto
  then show ?thesis using pc by (auto simp: map_find_def)
qed

lemma map_inv_MWriteUnlock:
  assumes inv: "map_inv c" and pc: "pcs c t = MWriteUnlock l"
  shows "map_inv (map_exec (Step t) c)"
proof -
  have "map_inv (c\<lparr>shared := writeUnlock (shared c), pcs := (pcs c)(t := MReadLock2 l), returned := returned c\<rparr>)"
    using pc map_inv_place [OF inv, of t]
    by (intro map_inv_inside [OF inv]) (auto simp: writeUnlock_def)
  then show ?thesis using pc by auto
qed

lemma map_place_ok_create:
  assumes "map_place_ok s pc" "items s ni = None"
    and "items s' = (items s)(ni \<mapsto> l)" "nhoodMap s' = nhoodMap s" "allNItems s' = allNItems s"
  shows "map_place_ok s' pc"
  using assms by (cases pc) auto

lemma mapped_unowned: "mapped_ok s \<Longrightarrow> items s ni = None \<Longrightarrow> nhoodMap s l \<noteq> Some ni"
  by (auto simp: mapped_ok_def)

lemma create_more:
  "create l s = (ni, s') \<Longrightarrow> nhood.more s' = nhood.more s"
  by (auto simp: create_def allocate_def construct_def split: list.splits)

lemma create_props_map:
  fixes s :: "'a map_nhood_scheme"
  assumes "create l s = (ni, s')"
  shows "nhoodMap s' = nhoodMap s" "writer s' = writer s" "readers s' = readers s"
  using assms by (auto simp: create_def allocate_def construct_def split: list.splits)

lemma map_inv_MCreate:
  assumes inv: "map_inv c" and pc: "pcs c t = MCreate l"
  shows "map_inv (map_exec (Step t) c)"
proof -
  let ?s = "shared c"
  obtain ni s' where cr: "create l ?s = (ni, s')" by (cases "create l ?s")
  note p = create_props [OF map_inv_state(1) [OF inv] cr]
  note q = create_props_map [OF cr]
  have m: "mapped_ok ?s" by (rule map_inv_state(2) [OF inv])
  have absent: "nhoodMap ?s l = None" using map_inv_place [OF inv, of t] pc by simp
  have w: "in_write (pcs c t)" using pc by simp
  have alone: "\<not> in_write (pcs c t')" if "t' \<noteq> t" for t'
    by (rule alone_in_write [OF inv w that])
  have notin: "ni \<notin> set (allNItems ?s)"
  proof
    assume "ni \<in> set (allNItems ?s)"
    from map_inv_collected [OF inv this] show False
    proof (elim disjE exE)
      fix l' assume "nhoodMap ?s l' = Some ni"
      then show False using mapped_unowned [OF m p(1)] by simp
    next
      fix t' l' assume "pcs c t' = MInsert l' ni"
      then show False using map_inv_place [OF inv, of t'] p(1) by simp
    qed
  qed
  have "map_inv (c\<lparr>shared := s', pcs := (pcs c)(t := MPush l ni), returned := returned c\<rparr>)"
  proof (intro map_inv_update [OF inv])
    show "alloc_ok s'" by (rule p(5))
    show "mapped_ok s'" using m p(1) by (auto simp: mapped_ok_def p(2) q(1))
    show "distinct (allNItems s')" using map_inv_state(3) [OF inv] by (simp add: p(4))
    show "map_place_ok s' (MPush l ni)"
      using absent notin mapped_unowned [OF m p(1)] by (simp add: p(2,4) q(1))
    show "map_place_ok s' (pcs c t')" for t'
      by (rule map_place_ok_create [OF map_inv_place [OF inv] p(1) p(2) q(1) p(4)])
    show "writer s'" using map_inv_writer [OF inv w] by (simp add: q(2))
    show "writer s'" if "t' \<noteq> t" for t' :: nat
      using map_inv_writer [OF inv w] by (simp add: q(2))
    show "\<not> in_write (pcs c t')" if "t' \<noteq> t" for t' by (rule alone [OF that])
    show "(\<exists>l. nhoodMap s' l = Some n) \<or> (\<exists>l'. MPush l ni = MInsert l' n)
        \<or> (\<exists>t' l. t' \<noteq> t \<and> pcs c t' = MInsert l n)" if "n \<in> set (allNItems s')" for n
    proof -
      from that have "n \<in> set (allNItems ?s)" by (simp add: p(4))
      from map_inv_collected [OF inv this] show ?thesis
      proof (elim disjE exE)
        fix l' assume "nhoodMap ?s l' = Some n"
        then show ?thesis by (auto simp: q(1))
      next
        fix t' l' assume i: "pcs c t' = MInsert l' n"
        then have "t' \<noteq> t" using pc by auto
        then show ?thesis using i by blast
      qed
    qed
    show "nhoodMap s' (fst x) = Some (snd x)" if "x \<in> set (returned c)" for x
      using map_inv_log [OF inv that] by (simp add: q(1))
  qed
  then show ?thesis using pc cr by (simp add: factory_create_def)
qed

lemma map_place_ok_outside:
  assumes "map_place_ok s pc" "\<not> in_write pc" "nhoodMap s l = None"
    and "items s' = items s" "nhoodMap s' = (nhoodMap s)(l \<mapsto> ni) \<or> nhoodMap s' = nhoodMap s"
  shows "map_place_ok s' pc"
  using assms by (cases pc) auto

lemma map_inv_MPush:
  assumes inv: "map_inv c" and pc: "pcs c t = MPush l ni"
  shows "map_inv (map_exec (Step t) c)"
proof -
  let ?s = "shared c"
  let ?s' = "push_back ni ?s"
  have mine: "nhoodMap ?s l = None" "items ?s ni = Some l" "ni \<notin> set (allNItems ?s)"
    "\<And>l'. nhoodMap ?s l' \<noteq> Some ni"
    using map_inv_place [OF inv, of t] pc by auto
  have w: "in_write (pcs c t)" using pc by simp
  have alone: "\<not> in_write (pcs c t')" if "t' \<noteq> t" for t'
    by (rule alone_in_write [OF inv w that])
  have "map_inv (c\<lparr>shared := ?s', pcs := (pcs c)(t := MInsert l ni), returned := returned c\<rparr>)"
  proof (intro map_inv_update [OF inv])
    show "alloc_ok ?s'" using map_inv_state(1) [OF inv] by (simp add: alloc_ok_def push_back_def)
    show "mapped_ok ?s'" using map_inv_state(2) [OF inv] by (simp add: mapped_ok_def push_back_def)
    show "distinct (allNItems ?s')" using map_inv_state(3) [OF inv] mine(3) by (simp add: push_back_def)
    show "map_place_ok ?s' (MInsert l ni)" using mine by (simp add: push_back_def)
    show "map_place_ok ?s' (pcs c t')" if "t' \<noteq> t" for t'
      using map_place_ok_outside [OF map_inv_place [OF inv, of t'] alone [OF that] mine(1), of ?s' ni]
      by (simp add: push_back_def)
    show "writer ?s'" using map_inv_writer [OF inv w] by (simp add: push_back_def)
    show "writer ?s'" if "t' \<noteq> t" for t' :: nat
      using map_inv_writer [OF inv w] by (simp add: push_back_def)
    show "\<not> in_write (pcs c t')" if "t' \<noteq> t" for t' by (rule alone [OF that])
    show "(\<exists>l. nhoodMap ?s' l = Some n) \<or> (\<exists>l'. MInsert l ni = MInsert l' n)
        \<or> (\<exists>t' l. t' \<noteq> t \<and> pcs c t' = MInsert l n)" if "n \<in> set (allNItems ?s')" for n
    proof (cases "n = ni")
      case True
      then show ?thesis by simp
    next
      case False
      then have "n \<in> set (allNItems ?s)" using that by (simp add: push_back_def)
      from map_inv_collected [OF inv this] show ?thesis
      proof (elim disjE exE)
        fix l' assume "nhoodMap ?s l' = Some n"
        then show ?thesis by (auto simp: push_back_def)
      next
        fix t' l' assume i: "pcs c t' = MInsert l' n"
        then have "t' \<noteq> t" using pc by auto
        then show ?thesis using i by blast
      qed
    qed
    show "nhoodMap ?s' (fst x) = Some (snd x)" if "x \<in> set (returned c)" for x
      using map_inv_log [OF inv that] by (simp add: push_back_def)
  qed
  then show ?thesis using pc by simp
qed

lemma map_inv_MInsert:
  assumes inv: "map_inv c" and pc: "pcs c t = MInsert l ni"
  shows "map_inv (map_exec (Step t) c)"
proof -
  let ?s = "shared c"
  let ?s' = "?s\<lparr>nhoodMap := (nhoodMap ?s)(l \<mapsto> ni)\<rparr>"
  have mine: "nhoodMap ?s l = None" "items ?s ni = Some l"
    using map_inv_place [OF inv, of t] pc by auto
  have w: "in_write (pcs c t)" using pc by simp
  have alone: "\<not> in_write (pcs c t')" if "t' \<noteq> t" for t'
    by (rule alone_in_write [OF inv w that])
  have "map_inv (c\<lparr>shared := ?s', pcs := (pcs c)(t := MWriteUnlock l), returned := returned c\<rparr>)"
  proof (intro map_inv_update [OF inv])
    show "alloc_ok ?s'" using map_inv_state(1) [OF inv] by (simp add: alloc_ok_def)
    show "mapped_ok ?s'" using map_inv_state(2) [OF inv] mine(2) by (simp add: mapped_ok_def)
    show "distinct (allNItems ?s')" using map_inv_state(3) [OF inv] by simp
    show "map_place_ok ?s' (MWriteUnlock l)" by simp
    show "map_place_ok ?s' (pcs c t')" if "t' \<noteq> t" for t'
      using map_place_ok_outside [OF map_inv_place [OF inv, of t'] alone [OF that] mine(1), of ?s' ni]
      by simp
    show "writer ?s'" using map_inv_writer [OF inv w] by simp
    show "writer ?s'" if "t' \<noteq> t" for t' :: nat
      using map_inv_writer [OF inv w] by simp
    show "\<not> in_write (pcs c t')" if "t' \<noteq> t" for t' by (rule alone [OF that])
    show "(\<exists>l. nhoodMap ?s' l = Some n) \<or> (\<exists>l'. MWriteUnlock l = MInsert l' n)
        \<or> (\<exists>t' l. t' \<noteq> t \<and> pcs c t' = MInsert l n)" if "n \<in> set (allNItems ?s')" for n
    proof -
      from that have "n \<in> set (allNItems ?s)" by simp
      from map_inv_collected [OF inv this] show ?thesis
      proof (elim disjE exE)
        fix l' assume n: "nhoodMap ?s l' = Some n"
        then have "l' \<noteq> l" using mine(1) by auto
        then have "nhoodMap ?s' l' = Some n" using n by simp
        then show ?thesis by blast
      next
        fix t' l' assume i: "pcs c t' = MInsert l' n"
        show ?thesis
        proof (cases "t' = t")
          case True
          then have "n = ni" using i pc by simp
          then have "nhoodMap ?s' l = Some n" by simp
          then show ?thesis by blast
        next
          case False
          then show ?thesis using i by blast
        qed
      qed
    qed
    show "nhoodMap ?s' (fst x) = Some (snd x)" if "x \<in> set (returned c)" for x
      using map_inv_log [OF inv that] mine(1) by auto
  qed
  then show ?thesis using pc mine(1) by (simp add: map_insert_def)
qed

lemma map_inv_exec: "map_inv c \<Longrightarrow> map_inv (map_exec e c)"
proof (cases e)
  case (Call t l)
  assume "map_inv c" then show ?thesis unfolding Call by (rule map_inv_Call)
next
  case (Step t)
  assume inv: "map_inv c"
  show ?thesis
    unfolding Step
  proof (cases "pcs c t")
    case MIdle
    then have "map_exec (Step t) c = c" by (simp add: fun_upd_idem)
    then show "map_inv (map_exec (Step t) c)" using inv by simp
  next
    case (MReadLock l)
    then show "map_inv (map_exec (Step t) c)" by (intro map_inv_MReadLock [OF inv, of t l]) simp
  next
    case (MFind l)
    then show "map_inv (map_exec (Step t) c)" by (rule map_inv_MFind [OF inv])
  next
    case (MReadUnlockMiss l)
    then show "map_inv (map_exec (Step t) c)" by (rule map_inv_MReadUnlockMiss [OF inv])
  next
    case (MWriteLock l)
    then show "map_inv (map_exec (Step t) c)" by (rule map_inv_MWriteLock [OF inv])
  next
    case (MRecheck l)
    then show "map_inv (map_exec (Step t) c)" by (rule map_inv_MRecheck [OF inv])
  next
    case (MCreate l)
    then show "map_inv (map_exec (Step t) c)" by (rule map_inv_MCreate [OF inv])
  next
    case (MPush l ni)
    then show "map_inv (map_exec (Step t) c)" by (rule map_inv_MPush [OF inv])
  next
    case (MInsert l ni)
    then show "map_inv (map_exec (Step t) c)" by (rule map_inv_MInsert [OF inv])
  next
    case (MWriteUnlock l)
    then show "map_inv (map_exec (Step t) c)" by (rule map_inv_MWriteUnlock [OF inv])
  next
    case (MReadLock2 l)
    then show "map_inv (map_exec (Step t) c)" by (intro map_inv_MReadLock [OF inv, of t l]) simp
  next
    case (MFind2 l)
    then show "map_inv (map_exec (Step t) c)" by (rule map_inv_MFind2 [OF inv])
  next
    case (MReadUnlock l i)
    then show "map_inv (map_exec (Step t) c)" by (rule map_inv_MReadUnlock [OF inv])
  next
    case MAborted
    then have "map_exec (Step t) c = c" by (simp add: fun_upd_idem)
    then show "map_inv (map_exec (Step t) c)" using inv by simp
  qed
qed

lemma map_inv_run: "map_inv c \<Longrightarrow> map_inv (map_run sched c)"
  unfolding map_run_def by (induction sched arbitrary: c) (simp_all add: map_inv_exec)

lemma map_inv_init: "map_inv map_init"
  by (simp add: map_inv_def map_init_def empty_map_nhood_def alloc_ok_def mapped_ok_def)


section \<open>One record for a lockable\<close>

lemmas nhood_ops = getOwner_def create_def allocate_def construct_def tryMappingTo_def CASowner_def
  push_back_def destroy_def deallocate_def destruct_def

lemma ptr_race_run:
  "returned (ptr_run ptr_race_sched ptr_init) = [(5, 0), (5, 0)]"
  by (simp add: ptr_race_sched_def ptr_run_def ptr_init_def empty_nhood_def nhood_ops)

lemmas map_ops = readLock_def readUnlock_def writeLock_def writeUnlock_def map_find_def
  map_insert_def factory_create_def

lemma map_race_run:
  "returned (map_run map_race_sched map_init) = [(5, 0), (5, 0)]"
  "allNItems (shared (map_run map_race_sched map_init)) = [0]"
  by (simp_all add: map_race_sched_def map_run_def map_init_def empty_map_nhood_def nhood_ops map_ops)


lemma ptr_returned_agree:
  assumes "ptr_inv c" "(l, r1) \<in> set (returned c)" "(l, r2) \<in> set (returned c)"
  shows "r1 = r2 \<and> items (shared c) r1 = Some l"
proof -
  have "owner (shared c) l = Some r1" "owner (shared c) l = Some r2"
    using assms by (auto dest: ptr_inv_log)
  then show ?thesis
    using ptr_inv_state(2) [OF assms(1)] by (auto simp: bound_ok_def)
qed

lemma map_returned_agree:
  assumes "map_inv c" "(l, r1) \<in> set (returned c)" "(l, r2) \<in> set (returned c)"
  shows "r1 = r2 \<and> items (shared c) r1 = Some l"
proof -
  have "nhoodMap (shared c) l = Some r1" "nhoodMap (shared c) l = Some r2"
    using map_inv_log [OF assms(1,2)] map_inv_log [OF assms(1,3)] by simp_all
  then show ?thesis
    using map_inv_state(2) [OF assms(1)] by (auto simp: mapped_ok_def)
qed

lemma map_collected_live:
  assumes inv: "map_inv c" and n: "n \<in> set (allNItems (shared c))"
  shows "\<exists>l. items (shared c) n = Some l
           \<and> (nhoodMap (shared c) l = Some n \<or> (\<exists>t. pcs c t = MInsert l n))"
  using map_inv_collected [OF inv n]
proof (elim disjE exE)
  fix l assume "nhoodMap (shared c) l = Some n"
  then show ?thesis using map_inv_state(2) [OF inv] by (auto simp: mapped_ok_def)
next
  fix t l assume p: "pcs c t = MInsert l n"
  then have "items (shared c) n = Some l" using map_inv_place [OF inv, of t] by simp
  then show ?thesis using p by blast
qed

lemma map_collected_unique:
  assumes inv: "map_inv c"
    and n: "n1 \<in> set (allNItems (shared c))" "n2 \<in> set (allNItems (shared c))"
    and same: "items (shared c) n1 = items (shared c) n2"
  shows "n1 = n2"
proof -
  obtain l1 where l1: "items (shared c) n1 = Some l1"
    "nhoodMap (shared c) l1 = Some n1 \<or> (\<exists>t. pcs c t = MInsert l1 n1)"
    using map_collected_live [OF inv n(1)] by blast
  obtain l2 where l2: "items (shared c) n2 = Some l2"
    "nhoodMap (shared c) l2 = Some n2 \<or> (\<exists>t. pcs c t = MInsert l2 n2)"
    using map_collected_live [OF inv n(2)] by blast
  have eq: "l1 = l2" using same l1(1) l2(1) by simp
  from l1(2) show ?thesis
  proof
    assume m1: "nhoodMap (shared c) l1 = Some n1"
    from l2(2) show ?thesis
    proof
      assume "nhoodMap (shared c) l2 = Some n2"
      then show ?thesis using m1 eq by simp
    next
      assume "\<exists>t. pcs c t = MInsert l2 n2"
      then obtain t where "pcs c t = MInsert l2 n2" ..
      then have "nhoodMap (shared c) l2 = None" using map_inv_place [OF inv, of t] by simp
      then show ?thesis using m1 eq by simp
    qed
  next
    assume "\<exists>t. pcs c t = MInsert l1 n1"
    then obtain t where t: "pcs c t = MInsert l1 n1" ..
    then have none: "nhoodMap (shared c) l1 = None" using map_inv_place [OF inv, of t] by simp
    from l2(2) show ?thesis
    proof
      assume "nhoodMap (shared c) l2 = Some n2"
      then show ?thesis using none eq by simp
    next
      assume "\<exists>t. pcs c t = MInsert l2 n2"
      then obtain t' where t': "pcs c t' = MInsert l2 n2" ..
      have "t = t'" using map_inv_unique [OF inv, of t t'] t t' by simp
      then show ?thesis using t t' by simp
    qed
  qed
qed

text \<open>
  Claim C1. In every interleaving of calls of \<open>getNhoodItem\<close> by any number of threads,
  with no reset in between, two calls for the same lockable that have returned have
  returned the same record, and that record is constructed and is the lockable's; this
  holds of the pointer-based manager, where the threads race the compare-and-swap on the
  owner slot, and of the map-based manager, where creation is checked again under the write
  lock. With the map-based manager, moreover, no two collected records are records of the
  same lockable. The interleavings start in any configuration that satisfies the invariant,
  as a manager that has created nothing does.
\<close>

theorem getNhoodItem_unique:
  "(ptr_inv c \<longrightarrow>
      (\<forall>l r1 r2. (l, r1) \<in> set (returned (ptr_run sched c))
                \<and> (l, r2) \<in> set (returned (ptr_run sched c))
         \<longrightarrow> r1 = r2 \<and> items (shared (ptr_run sched c)) r1 = Some l))
   \<and> (map_inv m \<longrightarrow>
      (\<forall>l r1 r2. (l, r1) \<in> set (returned (map_run sched' m))
                \<and> (l, r2) \<in> set (returned (map_run sched' m))
         \<longrightarrow> r1 = r2 \<and> items (shared (map_run sched' m)) r1 = Some l)
      \<and> (\<forall>n1 n2. n1 \<in> set (allNItems (shared (map_run sched' m)))
                \<and> n2 \<in> set (allNItems (shared (map_run sched' m)))
                \<and> items (shared (map_run sched' m)) n1 = items (shared (map_run sched' m)) n2
         \<longrightarrow> n1 = n2))"
proof (intro conjI impI allI)
  fix l r1 r2
  assume "ptr_inv c"
    and "(l, r1) \<in> set (returned (ptr_run sched c)) \<and> (l, r2) \<in> set (returned (ptr_run sched c))"
  then show "r1 = r2" "items (shared (ptr_run sched c)) r1 = Some l"
    using ptr_returned_agree [OF ptr_inv_run, of c l r1 sched r2] by blast+
next
  fix l r1 r2
  assume "map_inv m"
    and "(l, r1) \<in> set (returned (map_run sched' m)) \<and> (l, r2) \<in> set (returned (map_run sched' m))"
  then show "r1 = r2" "items (shared (map_run sched' m)) r1 = Some l"
    using map_returned_agree [OF map_inv_run, of m l r1 sched' r2] by blast+
next
  fix n1 n2
  assume "map_inv m"
    and "n1 \<in> set (allNItems (shared (map_run sched' m)))
         \<and> n2 \<in> set (allNItems (shared (map_run sched' m)))
         \<and> items (shared (map_run sched' m)) n1 = items (shared (map_run sched' m)) n2"
  then show "n1 = n2"
    using map_collected_unique [OF map_inv_run, of m n1 sched' n2] by simp
qed

theorem getNhoodItem_unique_witness:
  "ptr_inv ptr_init
   \<and> returned (ptr_run ptr_race_sched ptr_init) = [(5, 0), (5, 0)]
   \<and> items (shared (ptr_run ptr_race_sched ptr_init)) 0 = Some 5
   \<and> map_inv map_init
   \<and> returned (map_run map_race_sched map_init) = [(5, 0), (5, 0)]
   \<and> items (shared (map_run map_race_sched map_init)) 0 = Some 5
   \<and> allNItems (shared (map_run map_race_sched map_init)) = [0]"
proof -
  have p: "(5, 0) \<in> set (returned (ptr_run ptr_race_sched ptr_init))"
    by (simp add: ptr_race_run)
  have m: "(5, 0) \<in> set (returned (map_run map_race_sched map_init))"
    by (simp add: map_race_run)
  show ?thesis
    using p m ptr_inv_init map_inv_init ptr_race_run map_race_run
      getNhoodItem_unique [of ptr_init ptr_race_sched map_init map_race_sched]
    by blast
qed

lemma pcs_other_exec: "thread_of e \<noteq> t \<Longrightarrow> pcs (ptr_exec e c) t = pcs c t"
  by (cases e) (auto split: prod.splits)

lemma pcs_other_run:
  "\<forall>e \<in> set sched. thread_of e \<noteq> t \<Longrightarrow> pcs (ptr_run sched c) t = pcs c t"
  unfolding ptr_run_def by (induction sched arbitrary: c) (simp_all add: pcs_other_exec)

lemma owner_stable_step:
  "owner s l = Some w \<Longrightarrow> ptr_step pc s = (pc', s', r) \<Longrightarrow> owner s' l = Some w"
  by (cases pc) (auto simp: nhood_ops split: list.splits option.splits if_splits)

lemma owner_stable_exec:
  "owner (shared c) l = Some w \<Longrightarrow> owner (shared (ptr_exec e c)) l = Some w"
  by (cases e) (auto split: prod.splits dest: owner_stable_step)

lemma owner_stable_run:
  "owner (shared c) l = Some w \<Longrightarrow> owner (shared (ptr_run sched c)) l = Some w"
  unfolding ptr_run_def by (induction sched arbitrary: c) (simp_all add: owner_stable_exec)


section \<open>The thread that loses the race\<close>

text \<open>
  Claim C3. A thread of the pointer-based manager that has created the candidate \<open>ni\<close>
  for \<open>l\<close> and finds \<open>l\<close> owned by \<open>w\<close> loses its compare-and-swap, which
  changes nothing. Whatever the other threads do meanwhile, the candidate is not in the
  collection; the thread's next step destroys it and gives its storage back to the
  allocator, and leaves the collection as it is; the thread's last step returns \<open>w\<close>,
  the record that won, which is another record than the candidate and is constructed.
\<close>

theorem getNhoodItem_loser:
  assumes inv: "ptr_inv c" and pc: "pcs c t = AtTryMap l ni"
    and taken: "owner (shared c) l = Some w"
    and o1: "\<forall>e \<in> set sched1. thread_of e \<noteq> t" and o2: "\<forall>e \<in> set sched2. thread_of e \<noteq> t"
  shows "let lost = ptr_exec (Step t) c;
             c1 = ptr_run sched1 lost;
             gone = ptr_exec (Step t) c1;
             c2 = ptr_run sched2 gone;
             c3 = ptr_exec (Step t) c2
         in pcs lost t = AtDestroy l ni \<and> shared lost = shared c
          \<and> pcs c1 t = AtDestroy l ni \<and> items (shared c1) ni = Some l
          \<and> ni \<notin> set (allNItems (shared c1))
          \<and> pcs gone t = AtReturn l \<and> items (shared gone) ni = None
          \<and> free_list (shared gone) = ni # free_list (shared c1)
          \<and> allNItems (shared gone) = allNItems (shared c1)
          \<and> pcs c2 t = AtReturn l
          \<and> pcs c3 t = Idle \<and> returned c3 = returned c2 @ [(l, w)] \<and> shared c3 = shared c2
          \<and> w \<noteq> ni \<and> items (shared c3) w = Some l"
proof -
  define lost where "lost = ptr_exec (Step t) c"
  define c1 where "c1 = ptr_run sched1 lost"
  define gone where "gone = ptr_exec (Step t) c1"
  define c2 where "c2 = ptr_run sched2 gone"
  define c3 where "c3 = ptr_exec (Step t) c2"
  have lost: "pcs lost t = AtDestroy l ni" "shared lost = shared c"
    using pc taken by (simp_all add: lost_def tryMappingTo_def CASowner_def)
  have inv1: "ptr_inv c1"
    unfolding c1_def lost_def by (intro ptr_inv_run ptr_inv_exec inv)
  have pc1: "pcs c1 t = AtDestroy l ni"
    unfolding c1_def using pcs_other_run [OF o1, of lost] lost(1) by simp
  have own1: "owner (shared c1) l = Some w"
    unfolding c1_def using taken lost(2) by (intro owner_stable_run) simp
  have place1: "items (shared c1) ni = Some l" "\<And>l'. owner (shared c1) l' \<noteq> Some ni"
    using ptr_inv_place [OF inv1, of t] pc1 by auto
  have notin: "ni \<notin> set (allNItems (shared c1))"
    using ptr_inv_state(3) [OF inv1] place1(2) by (auto simp: collected_ok_def)
  have gone: "pcs gone t = AtReturn l" "shared gone = destroy ni (shared c1)"
    using pc1 by (simp_all add: gone_def)
  have inv2: "ptr_inv c2"
    unfolding c2_def gone_def by (intro ptr_inv_run ptr_inv_exec inv1)
  have pc2: "pcs c2 t = AtReturn l"
    unfolding c2_def using pcs_other_run [OF o2, of gone] gone(1) by simp
  have own2: "owner (shared c2) l = Some w"
    unfolding c2_def using own1 gone(2) by (intro owner_stable_run) (simp add: destroy_sel)
  have c3: "pcs c3 t = Idle" "returned c3 = returned c2 @ [(l, w)]" "shared c3 = shared c2"
    using pc2 own2 by (simp_all add: c3_def getOwner_def)
  have "w \<noteq> ni"
    using own1 place1(2) [of l] by auto
  moreover have "items (shared c3) w = Some l"
    using ptr_inv_state(2) [OF inv2] own2 c3(3) by (auto simp: bound_ok_def)
  ultimately show ?thesis
    using lost pc1 place1(1) notin gone pc2 c3
    unfolding Let_def lost_def [symmetric] c1_def [symmetric] gone_def [symmetric]
      c2_def [symmetric] c3_def [symmetric]
    by (simp add: destroy_sel)
qed

lemma ptr_contended_sel:
  "pcs ptr_contended 1 = AtTryMap 5 1" "owner (shared ptr_contended) 5 = Some 0"
  by (simp_all add: ptr_contended_def ptr_run_def ptr_init_def empty_nhood_def nhood_ops)

theorem getNhoodItem_loser_witness:
  "ptr_inv ptr_contended \<and> pcs ptr_contended 1 = AtTryMap 5 1
   \<and> owner (shared ptr_contended) 5 = Some 0
   \<and> thread_of (Step 0) \<noteq> 1
   \<and> (let lost = ptr_exec (Step 1) ptr_contended;
           c1 = ptr_run [Step 0] lost;
           gone = ptr_exec (Step 1) c1;
           c2 = ptr_run [Step 0] gone;
           c3 = ptr_exec (Step 1) c2
       in pcs lost 1 = AtDestroy 5 1
        \<and> items (shared c1) 1 = Some 5 \<and> 1 \<notin> set (allNItems (shared c1))
        \<and> items (shared gone) 1 = None
        \<and> free_list (shared gone) = 1 # free_list (shared c1)
        \<and> allNItems (shared gone) = allNItems (shared c1)
        \<and> returned c3 = returned c2 @ [(5, 0)]
        \<and> items (shared c3) 0 = Some 5)"
proof -
  have inv: "ptr_inv ptr_contended"
    unfolding ptr_contended_def by (intro ptr_inv_run ptr_inv_init)
  have o: "\<forall>e \<in> set [Step 0]. thread_of e \<noteq> 1" by simp
  have th: "thread_of (Step 0) \<noteq> 1" by simp
  show ?thesis
    using inv ptr_contended_sel th
      getNhoodItem_loser [OF inv ptr_contended_sel o o]
    unfolding Let_def by blast
qed


section \<open>Reset\<close>

lemma Reset_ok:
  assumes "items s ni = Some l" "owner s l = None \<or> owner s l = Some ni"
  shows "Reset ni s = Inr (destroy ni (s\<lparr>owner := (owner s)(l := None)\<rparr>))"
  using assms by (auto simp: Reset_def clearMapping_def tryLock_def release_def)

lemma reset_loop:
  assumes "distinct xs"
    and "\<forall>ni \<in> set xs. \<exists>l. items s ni = Some l \<and> (owner s l = None \<or> owner s l = Some ni)"
  shows "\<exists>s'. for_each Reset xs s = Inr s'
      \<and> owner s' = (\<lambda>l. if \<exists>ni \<in> set xs. items s ni = Some l then None else owner s l)
      \<and> items s' = (\<lambda>a. if a \<in> set xs then None else items s a)
      \<and> free_list s' = rev xs @ free_list s
      \<and> allNItems s' = allNItems s \<and> fresh s' = fresh s \<and> nhood.more s' = nhood.more s"
  using assms
proof (induction xs arbitrary: s)
  case Nil
  then show ?case by simp
next
  case (Cons ni xs)
  then obtain l where l: "items s ni = Some l" "owner s l = None \<or> owner s l = Some ni"
    by auto
  let ?s1 = "destroy ni (s\<lparr>owner := (owner s)(l := None)\<rparr>)"
  have r: "Reset ni s = Inr ?s1" by (rule Reset_ok [OF l])
  have it: "items ?s1 = (items s)(ni := None)" and ow: "owner ?s1 = (owner s)(l := None)"
    by (simp_all add: destroy_sel)
  have pre: "\<forall>n \<in> set xs. \<exists>l'. items ?s1 n = Some l' \<and> (owner ?s1 l' = None \<or> owner ?s1 l' = Some n)"
  proof
    fix n assume n: "n \<in> set xs"
    then have "n \<noteq> ni" using Cons.prems(1) by auto
    moreover obtain l' where "items s n = Some l'" "owner s l' = None \<or> owner s l' = Some n"
      using Cons.prems(2) n by auto
    ultimately show "\<exists>l'. items ?s1 n = Some l' \<and> (owner ?s1 l' = None \<or> owner ?s1 l' = Some n)"
      by (auto simp: it ow)
  qed
  have d: "distinct xs" "ni \<notin> set xs" using Cons.prems(1) by auto
  obtain s' where s': "for_each Reset xs ?s1 = Inr s'"
      "owner s' = (\<lambda>l'. if \<exists>n \<in> set xs. items ?s1 n = Some l' then None else owner ?s1 l')"
      "items s' = (\<lambda>a. if a \<in> set xs then None else items ?s1 a)"
      "free_list s' = rev xs @ free_list ?s1"
      "allNItems s' = allNItems ?s1" "fresh s' = fresh ?s1" "nhood.more s' = nhood.more ?s1"
    using Cons.IH [OF d(1) pre] by blast
  have o: "owner s' = (\<lambda>l'. if \<exists>n \<in> set (ni # xs). items s n = Some l' then None else owner s l')"
    using d(2) l(1) by (auto simp: s'(2) it ow fun_eq_iff)
  have i: "items s' = (\<lambda>a. if a \<in> set (ni # xs) then None else items s a)"
    by (auto simp: s'(3) it fun_eq_iff)
  have "for_each Reset (ni # xs) s = Inr s'" using r s'(1) by simp
  then show ?case
    using o i s'(4-7) by (intro exI [of _ s']) (simp add: destroy_sel destroy_def deallocate_def destruct_def)
qed


lemma getNhoodItem_unowned:
  assumes a: "alloc_ok s" and b: "bound_ok s" and free: "owner s r = None"
  shows "\<exists>ni s'. getNhoodItem r s = Inr (ni, s') \<and> items s ni = None
           \<and> items s' = (items s)(ni \<mapsto> r) \<and> owner s' = (owner s)(r \<mapsto> ni)
           \<and> allNItems s' = allNItems s @ [ni] \<and> alloc_ok s'"
proof -
  obtain ni s1 where cr: "create r s = (ni, s1)" by (cases "create r s")
  note p = create_props [OF a cr]
  let ?s' = "push_back ni (s1\<lparr>owner := (owner s1)(r \<mapsto> ni)\<rparr>)"
  have "getNhoodItem r s = Inr (ni, ?s')"
    using free cr p(3)
    by (simp add: getNhoodItem_def getOwner_def tryMappingTo_def CASowner_def push_back_def)
  moreover have "alloc_ok ?s'" using p(5) by (simp add: alloc_ok_def push_back_def)
  ultimately show ?thesis
    using p by (intro exI [of _ ni] exI [of _ ?s']) (simp add: push_back_def)
qed

lemma getNhoodItem_owned:
  assumes "owner s r = Some ni"
  shows "getNhoodItem r s = Inr (ni, s)"
  using assms by (simp add: getNhoodItem_def getOwner_def)

lemma quiet_ok_empty: "quiet_ok empty_nhood"
  by (simp add: quiet_ok_def empty_nhood_def alloc_ok_def bound_ok_def collected_ok_def)

lemma quiet_ok_getNhoodItem:
  assumes q: "quiet_ok s"
  shows "\<exists>ni s'. getNhoodItem r s = Inr (ni, s') \<and> quiet_ok s' \<and> owner s' r = Some ni"
proof (cases "owner s r")
  case (Some ni)
  then show ?thesis using q getNhoodItem_owned [OF Some] by simp
next
  case None
  have a: "alloc_ok s" and b: "bound_ok s" and co: "collected_ok s"
    and d: "distinct (allNItems s)"
    and all: "\<And>l n. owner s l = Some n \<Longrightarrow> n \<in> set (allNItems s)"
    using q by (auto simp: quiet_ok_def)
  obtain ni s' where g: "getNhoodItem r s = Inr (ni, s')" "items s ni = None"
      "items s' = (items s)(ni \<mapsto> r)" "owner s' = (owner s)(r \<mapsto> ni)"
      "allNItems s' = allNItems s @ [ni]" "alloc_ok s'"
    using getNhoodItem_unowned [OF a b None] by blast
  have unowned: "\<And>l. owner s l \<noteq> Some ni" using b g(2) by (auto simp: bound_ok_def)
  have notin: "ni \<notin> set (allNItems s)" using co unowned by (auto simp: collected_ok_def)
  have "bound_ok s'" using b g(2) by (auto simp: bound_ok_def g(3,4))
  moreover have "collected_ok s'"
    unfolding collected_ok_def
  proof
    fix n assume "n \<in> set (allNItems s')"
    then consider "n = ni" | "n \<in> set (allNItems s)" by (auto simp: g(5))
    then show "\<exists>l. owner s' l = Some n"
    proof cases
      case 1
      then show ?thesis by (auto simp: g(4))
    next
      case 2
      then obtain l where l: "owner s l = Some n" using co by (auto simp: collected_ok_def)
      then have "l \<noteq> r" using None by auto
      then show ?thesis using l by (intro exI [of _ l]) (simp add: g(4))
    qed
  qed
  moreover have "distinct (allNItems s')" using d notin by (simp add: g(5))
  moreover have "\<forall>l n. owner s' l = Some n \<longrightarrow> n \<in> set (allNItems s')"
    using all by (auto simp: g(4,5))
  ultimately have "quiet_ok s'" using g(6) by (simp add: quiet_ok_def)
  then show ?thesis using g(1) by (simp add: g(4))
qed

text \<open>The first reset of a manager, with no call in progress.\<close>

lemma reset_quiet:
  assumes q: "quiet_ok s"
  shows "\<exists>s'. resetAllNItems s = Inr s' \<and> (\<forall>l. owner s' l = None)
            \<and> (\<forall>ni \<in> set (allNItems s). items s' ni = None \<and> ni \<in> set (free_list s'))
            \<and> alloc_ok s' \<and> bound_ok s'"
proof -
  have a: "alloc_ok s" and b: "bound_ok s" and co: "collected_ok s"
    and d: "distinct (allNItems s)"
    and all: "\<And>l n. owner s l = Some n \<Longrightarrow> n \<in> set (allNItems s)"
    using q by (auto simp: quiet_ok_def)
  have pre: "\<forall>ni \<in> set (allNItems s).
      \<exists>l. items s ni = Some l \<and> (owner s l = None \<or> owner s l = Some ni)"
    using co b by (fastforce simp: collected_ok_def bound_ok_def)
  obtain s' where s': "for_each Reset (allNItems s) s = Inr s'"
      "owner s' = (\<lambda>l. if \<exists>ni \<in> set (allNItems s). items s ni = Some l then None else owner s l)"
      "items s' = (\<lambda>a. if a \<in> set (allNItems s) then None else items s a)"
      "free_list s' = rev (allNItems s) @ free_list s"
      "allNItems s' = allNItems s" "fresh s' = fresh s"
    using reset_loop [OF d pre] by blast
  have none: "owner s' l = None" for l
  proof (cases "owner s l")
    case None
    then show ?thesis by (simp add: s'(2))
  next
    case (Some n)
    then have "n \<in> set (allNItems s)" "items s n = Some l"
      using all b by (auto simp: bound_ok_def)
    then show ?thesis by (auto simp: s'(2))
  qed
  have live: "\<And>n. n \<in> set (allNItems s) \<Longrightarrow> \<exists>l. items s n = Some l"
    using pre by blast
  have disj: "x \<notin> set (free_list s)" if "x \<in> set (allNItems s)" for x
    using live [OF that] a by (auto simp: alloc_ok_def)
  have "alloc_ok s'"
    using a d live disj by (auto simp: alloc_ok_def s'(3,4,6))
  moreover have "bound_ok s'" using none by (simp add: bound_ok_def)
  ultimately show ?thesis
    using s'(1) none by (intro exI [of _ s']) (simp add: resetAllNItems_def s'(3,4))
qed

lemma reset_map_quiet:
  assumes q: "map_quiet_ok s"
  shows "\<exists>s'. resetAllNItems s = Inr s'
            \<and> (\<forall>ni \<in> set (allNItems s). items s' ni = None \<and> ni \<in> set (free_list s'))
            \<and> nhoodMap s' = nhoodMap s"
proof -
  have m: "mapped_ok s" and d: "distinct (allNItems s)"
    and co: "\<And>n. n \<in> set (allNItems s) \<Longrightarrow> \<exists>l. nhoodMap s l = Some n"
    and fr: "\<And>l n. nhoodMap s l = Some n \<Longrightarrow> owner s l = None \<or> owner s l = Some n"
    using q by (auto simp: map_quiet_ok_def)
  have pre: "\<forall>ni \<in> set (allNItems s).
      \<exists>l. items s ni = Some l \<and> (owner s l = None \<or> owner s l = Some ni)"
  proof
    fix n assume "n \<in> set (allNItems s)"
    then obtain l where l: "nhoodMap s l = Some n" using co by blast
    then have "items s n = Some l" using m by (simp add: mapped_ok_def)
    then show "\<exists>l. items s n = Some l \<and> (owner s l = None \<or> owner s l = Some n)"
      using fr [OF l] by blast
  qed
  obtain s' where s': "for_each Reset (allNItems s) s = Inr s'"
      "items s' = (\<lambda>a. if a \<in> set (allNItems s) then None else items s a)"
      "free_list s' = rev (allNItems s) @ free_list s"
      "nhood.more s' = nhood.more s"
    using reset_loop [OF d pre] by blast
  have "nhoodMap s' = nhoodMap s"
    using s'(4) by (metis map_nhood.select_convs(1) map_nhood.surjective nhood.select_convs(6) nhood.surjective)
  then show ?thesis
    using s'(1) by (intro exI [of _ s']) (simp add: resetAllNItems_def s'(2,3))
qed











section \<open>A call on its own and the steps of a thread\<close>

lemma getNhoodItem_as_steps:
  assumes "pcs c t = Idle" and "getNhoodItem l (shared c) = Inr (ni, s')"
  shows "ptr_run (Call t l # replicate 5 (Step t)) c
         = c\<lparr>shared := s', returned := returned c @ [(l, ni)]\<rparr>"
proof (cases "owner (shared c) l")
  case None
  obtain n s1 where cr: "create l (shared c) = (n, s1)" by (cases "create l (shared c)")
  have o: "owner s1 l = None"
    using cr None by (auto simp: create_def allocate_def construct_def split: list.splits)
  show ?thesis
    using assms None cr o
    by (auto simp: ptr_run_def numeral_eq_Suc getNhoodItem_def getOwner_def tryMappingTo_def
        CASowner_def push_back_def fun_upd_idem)
next
  case (Some w)
  then show ?thesis
    using assms
    by (auto simp: ptr_run_def numeral_eq_Suc getNhoodItem_def getOwner_def fun_upd_idem)
qed

lemma map_getNhoodItem_as_steps:
  assumes "pcs c t = MIdle" and "\<not> writer (shared c)" "readers (shared c) = 0"
    and "map_getNhoodItem l (shared c) = Inr (ni, s')"
  shows "map_run (Call t l # replicate 12 (Step t)) c
         = c\<lparr>shared := s', returned := returned c @ [(l, ni)]\<rparr>"
proof (cases "nhoodMap (shared c) l")
  case None
  obtain n s1 where cr: "create l (shared c\<lparr>readers := 0, writer := True\<rparr>) = (n, s1)"
    by (cases "create l (shared c\<lparr>readers := 0, writer := True\<rparr>)")
  have o: "nhoodMap s1 l = None" "writer s1" "readers s1 = 0"
    using cr None by (auto simp: create_def allocate_def construct_def split: list.splits)
  show ?thesis
    using assms None cr o
    by (auto simp: map_run_def numeral_eq_Suc map_getNhoodItem_def locked_def map_ops
        push_back_def fun_upd_idem)
next
  case (Some w)
  then show ?thesis
    using assms
    by (auto simp: map_run_def numeral_eq_Suc map_getNhoodItem_def locked_def map_ops fun_upd_idem)
qed


section \<open>Loading the inline compressed-row graph\<close>

lemma fg_nodes_ids: "map (\<lambda>ii. ii) (fg_nodes g) = [0..<length g]"
  by (simp add: fg_nodes_def)



lemma off_all: "edges_before g (length g) = length (concat g)"
  by simp







section \<open>The node records of the linear-packed layouts\<close>











lemma length_node_offsets: "length (node_offsets sz g c ns) = length ns"
  by (induction ns arbitrary: c) auto








section \<open>The edge records of the linear-packed layouts\<close>








section \<open>Reading the edges of the linear-packed layouts\<close>







section \<open>Loading the linear-packed graph\<close>






section \<open>The ranges of the threads\<close>












section \<open>Loading the graph of per-thread arenas\<close>







lemma nodes_laid_nil: "nodes_laid sz d g t c [] M nodes M nodes"
  by (simp add: nodes_laid_def)










section \<open>The four layouts give the same edges\<close>


lemma to_int_wide: "to_int (2 ^ 31) = - (2 ^ 31)"
  by (simp add: to_int_def)





end
